theory Spec2Isabelle
  imports Main
begin

section \<open>World Courier shortest path finder (src/9.py)\<close>

text \<open>
  The script parses two HTML tables, builds a weighted \<^verbatim>\<open>networkx.Graph\<close> and asks
  networkx for a shortest path. City names are Python strings. Python floats are kept
  abstract: a type \<open>'f\<close> of parsed numbers and a type \<open>'w\<close> of edge weights of which only
  addition, zero and a linear order are used (so nothing is assumed about rounding).
  The third-party functions \<^verbatim>\<open>float\<close> and \<^verbatim>\<open>haversine.haversine\<close> are parameters of
  the model; the networkx functions the script calls are modelled after networkx 3.x.
\<close>

type_synonym node = string

datatype error =
    NodeNotFound node
  | NetworkXNoPath
  | ValueError
  | KeyError node
  | IndexError
  | UnboundLocalError

subsection \<open>Python dictionaries with insertion order\<close>

text \<open>
  A \<^verbatim>\<open>dict\<close> is an association list in insertion order; \<^verbatim>\<open>d[k] = v\<close> overwrites in
  place when the key exists and appends otherwise; \<^verbatim>\<open>d[k]\<close> is \<open>map_of d k\<close>.
\<close>

fun dict_set :: "'k \<Rightarrow> 'v \<Rightarrow> ('k \<times> 'v) list \<Rightarrow> ('k \<times> 'v) list" where
  "dict_set k v [] = [(k, v)]"
| "dict_set k v (p # ps) = (if fst p = k then (k, v) # ps else p # dict_set k v ps)"

definition dict_keys :: "('k \<times> 'v) list \<Rightarrow> 'k list" where
  "dict_keys d = map fst d"

definition dict_has :: "('k \<times> 'v) list \<Rightarrow> 'k \<Rightarrow> bool" where
  "dict_has d k = (map_of d k \<noteq> None)"

subsection \<open>Parsing the two tables\<close>

text \<open>
  BeautifulSoup is outside the model: a table is the list of its \<^verbatim>\<open>tr\<close> rows, a row the
  list of the stripped texts of its \<^verbatim>\<open>td\<close> cells. \<open>py_float\<close> is Python's \<^verbatim>\<open>float\<close>
  on a string, \<open>None\<close> where it raises \<^verbatim>\<open>ValueError\<close>.
\<close>

type_synonym row = "string list"

fun parse_city_row ::
  "(string \<Rightarrow> 'f option) \<Rightarrow> row \<Rightarrow> (node \<times> 'f \<times> 'f) option" where
  "parse_city_row py_float (city # c1 # c2 # rest) =
     (case py_float c1 of
        None \<Rightarrow> None
      | Some lat \<Rightarrow>
          (case py_float c2 of
             None \<Rightarrow> None
           | Some lon \<Rightarrow> Some (city, lat, lon)))"
| "parse_city_row py_float cells = None"

fun parse_city_rows ::
  "(string \<Rightarrow> 'f option) \<Rightarrow> row list \<Rightarrow> (node \<times> 'f \<times> 'f) list \<Rightarrow> (node \<times> 'f \<times> 'f) list" where
  "parse_city_rows py_float [] coordinates = coordinates"
| "parse_city_rows py_float (r # rows) coordinates =
     (case parse_city_row py_float r of
        None \<Rightarrow> parse_city_rows py_float rows coordinates
      | Some (city, lat, lon) \<Rightarrow>
          parse_city_rows py_float rows (dict_set city (lat, lon) coordinates))"

definition parse_city_coordinates ::
  "(string \<Rightarrow> 'f option) \<Rightarrow> row list \<Rightarrow> (node \<times> 'f \<times> 'f) list" where
  "parse_city_coordinates py_float rows = parse_city_rows py_float rows []"

fun parse_flight_row :: "row \<Rightarrow> (node \<times> node) option" where
  "parse_flight_row (from_city # to_city # rest) =
     (if from_city \<noteq> [] \<and> to_city \<noteq> [] then Some (from_city, to_city) else None)"
| "parse_flight_row cells = None"

fun parse_flight_connections :: "row list \<Rightarrow> (node \<times> node) list" where
  "parse_flight_connections [] = []"
| "parse_flight_connections (r # rows) =
     (case parse_flight_row r of
        None \<Rightarrow> parse_flight_connections rows
      | Some conn \<Rightarrow> conn # parse_flight_connections rows)"

subsection \<open>The graph (networkx.Graph)\<close>

text \<open>
  \<^verbatim>\<open>Graph._adj\<close> is a dict from node to a dict from neighbour to the edge's attributes;
  every edge of this program carries exactly the attribute \<^verbatim>\<open>weight\<close>, so the inner
  dict maps a neighbour to the weight.
\<close>

type_synonym 'w adjacency = "(node \<times> 'w) list"
type_synonym 'w graph = "(node \<times> 'w adjacency) list"

definition has_node :: "'w graph \<Rightarrow> node \<Rightarrow> bool" where
  "has_node G n = dict_has G n"

definition add_node :: "node \<Rightarrow> 'w graph \<Rightarrow> 'w graph" where
  "add_node n G = (if has_node G n then G else G @ [(n, [])])"

text \<open>\<^verbatim>\<open>G._adj[u][v] = datadict\<close> for a node \<open>u\<close> that is present.\<close>

fun adj_set :: "node \<Rightarrow> node \<Rightarrow> 'w \<Rightarrow> 'w graph \<Rightarrow> 'w graph" where
  "adj_set u v w [] = []"
| "adj_set u v w (p # ps) =
     (if fst p = u then (u, dict_set v w (snd p)) # ps else p # adj_set u v w ps)"

definition add_edge :: "node \<Rightarrow> node \<Rightarrow> 'w \<Rightarrow> 'w graph \<Rightarrow> 'w graph" where
  "add_edge u v w G = adj_set v u w (adj_set u v w (add_node v (add_node u G)))"

definition has_edge :: "'w graph \<Rightarrow> node \<Rightarrow> node \<Rightarrow> bool" where
  "has_edge G u v = (case map_of G u of None \<Rightarrow> False | Some nbrs \<Rightarrow> dict_has nbrs v)"

text \<open>
  \<^verbatim>\<open>Graph.number_of_edges()\<close> is half the sum of the degrees, where the degree of a node
  is the number of its neighbours, a self-loop counting twice.
\<close>

definition degree :: "node \<times> 'w adjacency \<Rightarrow> nat" where
  "degree p = length (snd p) + (if dict_has (snd p) (fst p) then 1 else 0)"

definition number_of_edges :: "'w graph \<Rightarrow> nat" where
  "number_of_edges G = sum_list (map degree G) div 2"

subsection \<open>Building the flight graph\<close>

definition calculate_haversine_distance ::
  "('f \<times> 'f \<Rightarrow> 'f \<times> 'f \<Rightarrow> error + 'w) \<Rightarrow> 'f \<times> 'f \<Rightarrow> 'f \<times> 'f \<Rightarrow> error + 'w" where
  "calculate_haversine_distance haversine coord1 coord2 = haversine coord1 coord2"

fun add_connections ::
  "('f \<times> 'f \<Rightarrow> 'f \<times> 'f \<Rightarrow> error + 'w) \<Rightarrow> (node \<times> 'f \<times> 'f) list \<Rightarrow> (node \<times> node) list \<Rightarrow>
   'w graph \<Rightarrow> error + 'w graph" where
  "add_connections haversine coordinates [] G = Inr G"
| "add_connections haversine coordinates ((from_city, to_city) # rest) G =
     (case map_of coordinates from_city of
        None \<Rightarrow> add_connections haversine coordinates rest G
      | Some coord1 \<Rightarrow>
          (case map_of coordinates to_city of
             None \<Rightarrow> add_connections haversine coordinates rest G
           | Some coord2 \<Rightarrow>
               (case calculate_haversine_distance haversine coord1 coord2 of
                  Inl e \<Rightarrow> Inl e
                | Inr distance \<Rightarrow>
                    add_connections haversine coordinates rest
                      (add_edge from_city to_city distance G))))"

definition build_flight_graph ::
  "('f \<times> 'f \<Rightarrow> 'f \<times> 'f \<Rightarrow> error + 'w) \<Rightarrow> (node \<times> 'f \<times> 'f) list \<Rightarrow> (node \<times> node) list \<Rightarrow>
   error + 'w graph" where
  "build_flight_graph haversine coordinates connections =
     add_connections haversine coordinates connections
       (fold add_node (dict_keys coordinates) [])"

subsection \<open>Heaps (heapq)\<close>

text \<open>
  The fringe of a search is a \<^verbatim>\<open>heapq\<close> heap of tuples \<^verbatim>\<open>(distance, count, node)\<close>.
  \<open>entry_lt\<close> is Python's \<^verbatim>\<open><\<close> on such tuples: the first position where the tuples
  differ decides. \<open>node_lt\<close> is Python's \<^verbatim>\<open><\<close> on node names. A heap is modelled by the
  list of its entries, and \<^verbatim>\<open>heappop\<close> removes an entry that is least for \<open>entry_lt\<close>.
\<close>

type_synonym 'w entry = "'w \<times> nat \<times> node"

definition entry_lt :: "(node \<Rightarrow> node \<Rightarrow> bool) \<Rightarrow> 'w::linorder entry \<Rightarrow> 'w entry \<Rightarrow> bool" where
  "entry_lt node_lt a b =
     (if fst a \<noteq> fst b then fst a < fst b
      else if fst (snd a) \<noteq> fst (snd b) then fst (snd a) < fst (snd b)
      else if snd (snd a) \<noteq> snd (snd b) then node_lt (snd (snd a)) (snd (snd b))
      else False)"

fun heap_least ::
  "(node \<Rightarrow> node \<Rightarrow> bool) \<Rightarrow> 'w::linorder entry \<Rightarrow> 'w entry list \<Rightarrow> 'w entry" where
  "heap_least node_lt m [] = m"
| "heap_least node_lt m (e # es) =
     heap_least node_lt (if entry_lt node_lt e m then e else m) es"

definition heappush :: "'w entry list \<Rightarrow> 'w entry \<Rightarrow> 'w entry list" where
  "heappush h e = h @ [e]"

definition heappop ::
  "(node \<Rightarrow> node \<Rightarrow> bool) \<Rightarrow> 'w::linorder entry list \<Rightarrow> ('w entry \<times> 'w entry list) option" where
  "heappop node_lt h =
     (case h of
        [] \<Rightarrow> None
      | e # es \<Rightarrow> (let m = heap_least node_lt e es in Some (m, remove1 m h)))"

subsection \<open>networkx.bidirectional_dijkstra\<close>

text \<open>
  The search keeps, for each direction, the dicts \<^verbatim>\<open>dists\<close>, \<^verbatim>\<open>paths\<close> and \<^verbatim>\<open>seen\<close> and
  the heap \<^verbatim>\<open>fringe\<close>; the counter \<^verbatim>\<open>c\<close>, \<^verbatim>\<open>finaldist\<close>, \<^verbatim>\<open>finalpath\<close> and \<^verbatim>\<open>dir\<close> are
  shared. \<^verbatim>\<open>dir\<close> is \<open>False\<close> for 0 (forward) and \<open>True\<close> for 1 (backward).
  \<^verbatim>\<open>finaldist\<close> is unbound until its first assignment. The function modelled:
  \<^verbatim>\<open>
  if source not in G: raise nx.NodeNotFound(...)
  if target not in G: raise nx.NodeNotFound(...)
  if source == target: return (0, [source])
  dists = [{}, {}]; paths = [{source: [source]}, {target: [target]}]
  fringe = [[], []]; seen = [{source: 0}, {target: 0}]; c = count()
  heappush(fringe[0], (0, next(c), source)); heappush(fringe[1], (0, next(c), target))
  neighs = [G._adj, G._adj]; finalpath = []; dir = 1
  while fringe[0] and fringe[1]:
      dir = 1 - dir
      (dist, _, v) = heappop(fringe[dir])
      if v in dists[dir]: continue
      dists[dir][v] = dist
      if v in dists[1 - dir]: return (finaldist, finalpath)
      for w, d in neighs[dir][v].items():
          cost = d['weight']
          vwLength = dists[dir][v] + cost
          if w in dists[dir]:
              if vwLength < dists[dir][w]: raise ValueError(...)
          elif w not in seen[dir] or vwLength < seen[dir][w]:
              seen[dir][w] = vwLength
              heappush(fringe[dir], (vwLength, next(c), w))
              paths[dir][w] = paths[dir][v] + [w]
              if w in seen[0] and w in seen[1]:
                  totaldist = seen[0][w] + seen[1][w]
                  if finalpath == [] or finaldist > totaldist:
                      finaldist = totaldist
                      revpath = paths[1][w][:]; revpath.reverse()
                      finalpath = paths[0][w] + revpath[1:]
  raise nx.NetworkXNoPath(...)
  \<close>
\<close>

record 'w search =
  dists :: "node \<rightharpoonup> 'w"
  paths :: "node \<rightharpoonup> node list"
  fringe :: "'w entry list"
  seen :: "node \<rightharpoonup> 'w"

record 'w bidi =
  forward :: "'w search"
  backward :: "'w search"
  counter :: nat
  finaldist :: "'w option"
  finalpath :: "node list"
  dir :: bool

definition side :: "bool \<Rightarrow> 'w bidi \<Rightarrow> 'w search" where
  "side d st = (if d then backward st else forward st)"

definition set_side :: "bool \<Rightarrow> 'w search \<Rightarrow> 'w bidi \<Rightarrow> 'w bidi" where
  "set_side d s st = (if d then st\<lparr>backward := s\<rparr> else st\<lparr>forward := s\<rparr>)"

text \<open>The assignment to \<^verbatim>\<open>finaldist\<close> and \<^verbatim>\<open>finalpath\<close> for a node seen from both ends.\<close>

definition set_final :: "node \<Rightarrow> 'w::plus \<Rightarrow> 'w bidi \<Rightarrow> error + 'w bidi" where
  "set_final w totaldist st =
     (case paths (forward st) w of
        None \<Rightarrow> Inl (KeyError w)
      | Some p0 \<Rightarrow>
          (case paths (backward st) w of
             None \<Rightarrow> Inl (KeyError w)
           | Some p1 \<Rightarrow>
               Inr (st\<lparr>finaldist := Some totaldist, finalpath := p0 @ tl (rev p1)\<rparr>)))"

definition meet :: "node \<Rightarrow> 'w::{plus,linorder} bidi \<Rightarrow> error + 'w bidi" where
  "meet w st =
     (case seen (forward st) w of
        None \<Rightarrow> Inr st
      | Some s0 \<Rightarrow>
          (case seen (backward st) w of
             None \<Rightarrow> Inr st
           | Some s1 \<Rightarrow>
               (let totaldist = s0 + s1 in
                if finalpath st = [] then set_final w totaldist st
                else
                  (case finaldist st of
                     None \<Rightarrow> Inl UnboundLocalError
                   | Some fd \<Rightarrow>
                       if fd > totaldist then set_final w totaldist st else Inr st))))"

text \<open>One iteration of \<^verbatim>\<open>for w, d in neighs[dir][v].items()\<close>.\<close>

definition relax_edge ::
  "bool \<Rightarrow> node \<Rightarrow> node \<times> 'w \<Rightarrow> 'w::{plus,linorder} bidi \<Rightarrow> error + 'w bidi" where
  "relax_edge d v e st =
     (let w = fst e; cost = snd e; s = side d st in
      case dists s v of
        None \<Rightarrow> Inl (KeyError v)
      | Some dv \<Rightarrow>
          (let vwLength = dv + cost in
           case dists s w of
             Some dw \<Rightarrow> if vwLength < dw then Inl ValueError else Inr st
           | None \<Rightarrow>
               if (case seen s w of None \<Rightarrow> True | Some sw \<Rightarrow> vwLength < sw) then
                 (case paths s v of
                    None \<Rightarrow> Inl (KeyError v)
                  | Some pv \<Rightarrow>
                      meet w
                        ((set_side d
                           (s\<lparr>seen := (seen s)(w \<mapsto> vwLength),
                              fringe := heappush (fringe s) (vwLength, counter st, w),
                              paths := (paths s)(w \<mapsto> pv @ [w])\<rparr>) st)
                         \<lparr>counter := Suc (counter st)\<rparr>))
               else Inr st))"

fun relax ::
  "bool \<Rightarrow> node \<Rightarrow> 'w adjacency \<Rightarrow> 'w::{plus,linorder} bidi \<Rightarrow> error + 'w bidi" where
  "relax d v [] st = Inr st"
| "relax d v (e # es) st =
     (case relax_edge d v e st of
        Inl err \<Rightarrow> Inl err
      | Inr st' \<Rightarrow> relax d v es st')"

text \<open>
  The body of \<^verbatim>\<open>while fringe[0] and fringe[1]\<close>: \<open>Inl\<close> leaves the loop (an exception or
  the \<^verbatim>\<open>return\<close>), \<open>Inr\<close> is the state for the next iteration.
\<close>

definition bidi_step ::
  "(node \<Rightarrow> node \<Rightarrow> bool) \<Rightarrow> 'w graph \<Rightarrow> 'w::{plus,linorder} bidi \<Rightarrow>
   (error + 'w \<times> node list) + 'w bidi" where
  "bidi_step node_lt G st0 =
     (let d = \<not> dir st0; st = st0\<lparr>dir := d\<rparr>; s = side d st in
      case heappop node_lt (fringe s) of
        None \<Rightarrow> Inl (Inl IndexError)
      | Some (m, h) \<Rightarrow>
          (let dist = fst m; v = snd (snd m);
               st1 = set_side d (s\<lparr>fringe := h\<rparr>) st in
           if dists s v \<noteq> None then Inr st1
           else
             (let st2 = set_side d ((side d st1)\<lparr>dists := (dists s)(v \<mapsto> dist)\<rparr>) st1 in
              if dists (side (\<not> d) st2) v \<noteq> None then
                (case finaldist st2 of
                   None \<Rightarrow> Inl (Inl UnboundLocalError)
                 | Some fd \<Rightarrow> Inl (Inr (fd, finalpath st2)))
              else
                (case map_of G v of
                   None \<Rightarrow> Inl (Inl (KeyError v))
                 | Some nbrs \<Rightarrow>
                     (case relax d v nbrs st2 of
                        Inl err \<Rightarrow> Inl (Inl err)
                      | Inr st3 \<Rightarrow> Inr st3)))))"

function bidi_loop ::
  "(node \<Rightarrow> node \<Rightarrow> bool) \<Rightarrow> 'w graph \<Rightarrow> 'w::{plus,linorder} bidi \<Rightarrow> error + 'w \<times> node list" where
  "bidi_loop node_lt G st =
     (if fringe (forward st) \<noteq> [] \<and> fringe (backward st) \<noteq> [] then
        (case bidi_step node_lt G st of
           Inl r \<Rightarrow> r
         | Inr st' \<Rightarrow> bidi_loop node_lt G st')
      else Inl NetworkXNoPath)"
  by pat_completeness auto

definition bidi_init :: "node \<Rightarrow> node \<Rightarrow> 'w::zero bidi" where
  "bidi_init source target =
     \<lparr>forward = \<lparr>dists = Map.empty, paths = [source \<mapsto> [source]],
                 fringe = heappush [] (0, 0, source), seen = [source \<mapsto> 0]\<rparr>,
      backward = \<lparr>dists = Map.empty, paths = [target \<mapsto> [target]],
                  fringe = heappush [] (0, 1, target), seen = [target \<mapsto> 0]\<rparr>,
      counter = 2, finaldist = None, finalpath = [], dir = True\<rparr>"

definition bidirectional_dijkstra ::
  "(node \<Rightarrow> node \<Rightarrow> bool) \<Rightarrow> 'w graph \<Rightarrow> node \<Rightarrow> node \<Rightarrow>
   error + 'w::{plus,zero,linorder} \<times> node list" where
  "bidirectional_dijkstra node_lt G source target =
     (if \<not> has_node G source then Inl (NodeNotFound source)
      else if \<not> has_node G target then Inl (NodeNotFound target)
      else if source = target then Inr (0, [source])
      else bidi_loop node_lt G (bidi_init source target))"

subsection \<open>networkx.dijkstra_path_length\<close>

text \<open>
  \<^verbatim>\<open>_dijkstra_multisource\<close> with the single source, no cutoff, and neither \<^verbatim>\<open>pred\<close> nor
  \<^verbatim>\<open>paths\<close> requested: the dicts \<^verbatim>\<open>dist\<close> and \<^verbatim>\<open>seen\<close>, the heap and the counter.
  The functions modelled:
  \<^verbatim>\<open>
  def dijkstra_path_length(G, source, target, weight):
      if source not in G: raise nx.NodeNotFound(...)
      if source == target: return 0
      length = _dijkstra(G, source, weight, target=target)
      try: return length[target]
      except KeyError: raise nx.NetworkXNoPath(...)

  dist = {}; seen = {source: 0}; c = count(); fringe = []
  heappush(fringe, (0, next(c), source))
  while fringe:
      (d, _, v) = heappop(fringe)
      if v in dist: continue
      dist[v] = d
      if v == target: break
      for u, e in G._adj[v].items():
          cost = e['weight']
          vu_dist = dist[v] + cost
          if u in dist:
              if vu_dist < dist[u]: raise ValueError(...)
          elif u not in seen or vu_dist < seen[u]:
              seen[u] = vu_dist
              heappush(fringe, (vu_dist, next(c), u))
  return dist
  \<close>
\<close>

record 'w uni =
  u_dist :: "node \<rightharpoonup> 'w"
  u_seen :: "node \<rightharpoonup> 'w"
  u_fringe :: "'w entry list"
  u_counter :: nat

definition uni_relax_edge ::
  "node \<Rightarrow> node \<times> 'w \<Rightarrow> 'w::{plus,linorder} uni \<Rightarrow> error + 'w uni" where
  "uni_relax_edge v e st =
     (let u = fst e; cost = snd e in
      case u_dist st v of
        None \<Rightarrow> Inl (KeyError v)
      | Some dv \<Rightarrow>
          (let vu_dist = dv + cost in
           case u_dist st u of
             Some du \<Rightarrow> if vu_dist < du then Inl ValueError else Inr st
           | None \<Rightarrow>
               if (case u_seen st u of None \<Rightarrow> True | Some su \<Rightarrow> vu_dist < su) then
                 Inr (st\<lparr>u_seen := (u_seen st)(u \<mapsto> vu_dist),
                         u_fringe := heappush (u_fringe st) (vu_dist, u_counter st, u),
                         u_counter := Suc (u_counter st)\<rparr>)
               else Inr st))"

fun uni_relax ::
  "node \<Rightarrow> 'w adjacency \<Rightarrow> 'w::{plus,linorder} uni \<Rightarrow> error + 'w uni" where
  "uni_relax v [] st = Inr st"
| "uni_relax v (e # es) st =
     (case uni_relax_edge v e st of
        Inl err \<Rightarrow> Inl err
      | Inr st' \<Rightarrow> uni_relax v es st')"

text \<open>
  The body of \<^verbatim>\<open>while fringe\<close>: \<open>Inl\<close> leaves the loop (an exception, or the
  \<^verbatim>\<open>break\<close> at the target with the dict \<^verbatim>\<open>dist\<close>), \<open>Inr\<close> is the next state.
\<close>

definition uni_step ::
  "(node \<Rightarrow> node \<Rightarrow> bool) \<Rightarrow> 'w graph \<Rightarrow> node \<Rightarrow> 'w::{plus,linorder} uni \<Rightarrow>
   (error + (node \<rightharpoonup> 'w)) + 'w uni" where
  "uni_step node_lt G target st =
     (case heappop node_lt (u_fringe st) of
        None \<Rightarrow> Inl (Inl IndexError)
      | Some (m, h) \<Rightarrow>
          (let d = fst m; v = snd (snd m); st1 = st\<lparr>u_fringe := h\<rparr> in
           if u_dist st v \<noteq> None then Inr st1
           else
             (let st2 = st1\<lparr>u_dist := (u_dist st)(v \<mapsto> d)\<rparr> in
              if v = target then Inl (Inr (u_dist st2))
              else
                (case map_of G v of
                   None \<Rightarrow> Inl (Inl (KeyError v))
                 | Some nbrs \<Rightarrow>
                     (case uni_relax v nbrs st2 of
                        Inl err \<Rightarrow> Inl (Inl err)
                      | Inr st3 \<Rightarrow> Inr st3)))))"

function uni_loop ::
  "(node \<Rightarrow> node \<Rightarrow> bool) \<Rightarrow> 'w graph \<Rightarrow> node \<Rightarrow> 'w::{plus,linorder} uni \<Rightarrow>
   error + (node \<rightharpoonup> 'w)" where
  "uni_loop node_lt G target st =
     (if u_fringe st \<noteq> [] then
        (case uni_step node_lt G target st of
           Inl r \<Rightarrow> r
         | Inr st' \<Rightarrow> uni_loop node_lt G target st')
      else Inr (u_dist st))"
  by pat_completeness auto

definition uni_init :: "node \<Rightarrow> 'w::zero uni" where
  "uni_init source =
     \<lparr>u_dist = Map.empty, u_seen = [source \<mapsto> 0],
      u_fringe = heappush [] (0, 0, source), u_counter = 1\<rparr>"

definition dijkstra_path_length ::
  "(node \<Rightarrow> node \<Rightarrow> bool) \<Rightarrow> 'w graph \<Rightarrow> node \<Rightarrow> node \<Rightarrow> error + 'w::{plus,zero,linorder}" where
  "dijkstra_path_length node_lt G source target =
     (if \<not> has_node G source then Inl (NodeNotFound source)
      else if source = target then Inr 0
      else
        (case uni_loop node_lt G target (uni_init source) of
           Inl err \<Rightarrow> Inl err
         | Inr lengths \<Rightarrow>
             (case lengths target of
                None \<Rightarrow> Inl NetworkXNoPath
              | Some l \<Rightarrow> Inr l)))"

subsection \<open>The two networkx entry points and the script's solver\<close>

text \<open>
  With a source, a target and \<^verbatim>\<open>weight='weight'\<close>, \<^verbatim>\<open>nx.shortest_path\<close> is the path of
  \<^verbatim>\<open>bidirectional_dijkstra\<close> and \<^verbatim>\<open>nx.shortest_path_length\<close> is
  \<^verbatim>\<open>dijkstra_path_length\<close>.
\<close>

definition shortest_path ::
  "(node \<Rightarrow> node \<Rightarrow> bool) \<Rightarrow> 'w::{plus,zero,linorder} graph \<Rightarrow> node \<Rightarrow> node \<Rightarrow> error + node list" where
  "shortest_path node_lt G source target =
     (case bidirectional_dijkstra node_lt G source target of
        Inl err \<Rightarrow> Inl err
      | Inr r \<Rightarrow> Inr (snd r))"

definition shortest_path_length ::
  "(node \<Rightarrow> node \<Rightarrow> bool) \<Rightarrow> 'w graph \<Rightarrow> node \<Rightarrow> node \<Rightarrow> error + 'w::{plus,zero,linorder}" where
  "shortest_path_length node_lt G source target = dijkstra_path_length node_lt G source target"

text \<open>
  The distance \<^verbatim>\<open>find_shortest_path\<close> returns is a weight or \<^verbatim>\<open>float('inf')\<close>. Only
  \<^verbatim>\<open>NetworkXNoPath\<close> is caught; every other exception leaves the function.
\<close>

datatype 'w distance = Finite 'w | PosInf

definition find_shortest_path ::
  "(node \<Rightarrow> node \<Rightarrow> bool) \<Rightarrow> 'w::{plus,zero,linorder} graph \<Rightarrow> node \<Rightarrow> node \<Rightarrow>
   error + node list \<times> 'w distance" where
  "find_shortest_path node_lt graph start end =
     (case shortest_path node_lt graph start end of
        Inl NetworkXNoPath \<Rightarrow> Inr ([], PosInf)
      | Inl err \<Rightarrow> Inl err
      | Inr path \<Rightarrow>
          (case shortest_path_length node_lt graph start end of
             Inl NetworkXNoPath \<Rightarrow> Inr ([], PosInf)
           | Inl err \<Rightarrow> Inl err
           | Inr distance \<Rightarrow> Inr (path, Finite distance)))"

subsection \<open>Measures of the two searches\<close>

text \<open>
  Each iteration either settles a node of the graph that was not settled before, or
  only shortens a heap.
\<close>

definition unsettled :: "'w graph \<Rightarrow> (node \<rightharpoonup> 'w) \<Rightarrow> nat" where
  "unsettled G m = card {n \<in> set (map fst G). m n = None}"

definition bidi_size :: "'w graph \<Rightarrow> 'w bidi \<Rightarrow> nat \<times> nat" where
  "bidi_size G st =
     (unsettled G (dists (forward st)) + unsettled G (dists (backward st)),
      length (fringe (forward st)) + length (fringe (backward st)))"

definition uni_size :: "'w graph \<Rightarrow> 'w uni \<Rightarrow> nat \<times> nat" where
  "uni_size G st = (unsettled G (u_dist st), length (u_fringe st))"

subsection \<open>Edges as unordered pairs\<close>

text \<open>
  The edges of a graph as sets \<open>{u, v}\<close> (a self-loop is the singleton \<open>{u}\<close>), the
  symmetry of the adjacency structure, and the relation between the degrees and the
  number of such sets that \<^verbatim>\<open>number_of_edges\<close> relies on.
\<close>

definition edge_set :: "'w graph \<Rightarrow> node set set" where
  "edge_set G = {{u, v} | u v. has_edge G u v}"

definition symmetric :: "'w graph \<Rightarrow> bool" where
  "symmetric G = (\<forall>u v. has_edge G u v \<longrightarrow> has_edge G v u)"

definition degrees_ok :: "'w graph \<Rightarrow> bool" where
  "degrees_ok G = (symmetric G \<and> sum_list (map degree G) = 2 * card (edge_set G))"

text \<open>
  The unordered pairs named by the connections whose two endpoints have coordinates;
  \<open>known_proper_pairs\<close> follows the specification's count, which leaves out the pairs
  that name one city twice.
\<close>

definition known_pairs :: "(node \<times> 'c) list \<Rightarrow> (node \<times> node) list \<Rightarrow> node set set" where
  "known_pairs coordinates connections =
     {{a, b} | a b. (a, b) \<in> set connections \<and> dict_has coordinates a \<and> dict_has coordinates b}"

definition known_proper_pairs :: "(node \<times> 'c) list \<Rightarrow> (node \<times> node) list \<Rightarrow> node set set" where
  "known_proper_pairs coordinates connections =
     {{a, b} | a b. (a, b) \<in> set connections \<and> a \<noteq> b \<and>
        dict_has coordinates a \<and> dict_has coordinates b}"

text \<open>
  A stand-in for \<^verbatim>\<open>haversine\<close> in the examples: the Manhattan distance of integer
  coordinates. It never raises and, like the haversine distance, is 0 between equal
  coordinates.
\<close>

definition flat_distance :: "int \<times> int \<Rightarrow> int \<times> int \<Rightarrow> error + nat" where
  "flat_distance a b = Inr (nat (\<bar>fst a - fst b\<bar> + \<bar>snd a - snd b\<bar>))"

subsection \<open>Names and stand-ins used to state the properties of the parsers\<close>

text \<open>
  \<open>row_city\<close> is the city a row of the coordinate table assigns, if the row is
  well-formed (at least three cells, the second and third accepted by \<^verbatim>\<open>float\<close>).
\<close>

definition row_city :: "(string \<Rightarrow> 'f option) \<Rightarrow> row \<Rightarrow> node option" where
  "row_city py_float r = map_option fst (parse_city_row py_float r)"

text \<open>
  A stand-in for \<^verbatim>\<open>float\<close> in the examples: it agrees with Python on the texts it
  accepts and rejects every other text (as Python rejects \<^verbatim>\<open>'x'\<close>).
\<close>

definition example_float :: "string \<Rightarrow> int option" where
  "example_float = map_of [(''0'', 0), (''1'', 1), (''2'', 2), (''-1'', -1)]"

subsection \<open>Invariants of the heaps\<close>

text \<open>
  The counter of a heap entry, and the invariant of a heap under the counter \<open>c\<close> of its
  search: no two entries carry the same counter and every counter is below \<open>c\<close>, the
  next one to be handed out.
\<close>

definition count_of :: "'w entry \<Rightarrow> nat" where
  "count_of e = fst (snd e)"

definition heap_ok :: "nat \<Rightarrow> 'w entry list \<Rightarrow> bool" where
  "heap_ok c h = (distinct (map count_of h) \<and> (\<forall>e \<in> set h. count_of e < c))"

definition counters_ok :: "'w bidi \<Rightarrow> bool" where
  "counters_ok st = (\<forall>d. heap_ok (counter st) (fringe (side d st)))"

text \<open>A graph with two shortest paths from \<open>A\<close> to \<open>D\<close>, both of weight 2.\<close>

definition diamond :: "nat graph" where
  "diamond = [(''A'', [(''B'', 1), (''C'', 1)]), (''B'', [(''A'', 1), (''D'', 1)]),
     (''C'', [(''A'', 1), (''D'', 1)]), (''D'', [(''B'', 1), (''C'', 1)])]"

subsection \<open>Reachability and the invariant of the bidirectional search\<close>

text \<open>
  The edges of a graph as a relation on names; the two conditions every
  \<^verbatim>\<open>networkx.Graph\<close> with the weights of this program satisfies: a neighbour is a node,
  and adding an edge weight to a number does not make it smaller (the weights are
  distances, so not negative and not NaN).
\<close>

definition edge_rel :: "'w graph \<Rightarrow> (node \<times> node) set" where
  "edge_rel G = {(u, v). has_edge G u v}"

definition neighbours_are_nodes :: "'w graph \<Rightarrow> bool" where
  "neighbours_are_nodes G = (\<forall>u v. has_edge G u v \<longrightarrow> has_node G v)"

definition weights_ok :: "'w::{plus,linorder} graph \<Rightarrow> bool" where
  "weights_ok G =
     (\<forall>u nbrs v c. map_of G u = Some nbrs \<and> (v, c) \<in> set nbrs \<longrightarrow> (\<forall>a. a \<le> a + c))"

text \<open>
  The invariant of one direction of the search with root \<open>r\<close>: the nodes of the heap are
  seen, a settled node is seen, a seen node has a path and is reachable from \<open>r\<close>, and a
  settled distance is at most every distance in the heap.
\<close>

definition side_inv :: "'w::linorder graph \<Rightarrow> node \<Rightarrow> 'w search \<Rightarrow> bool" where
  "side_inv G r s =
     ((\<forall>e \<in> set (fringe s). seen s (snd (snd e)) \<noteq> None) \<and>
      (\<forall>n. dists s n \<noteq> None \<longrightarrow> seen s n \<noteq> None) \<and>
      (\<forall>n. seen s n \<noteq> None \<longrightarrow> paths s n \<noteq> None \<and> (r, n) \<in> (edge_rel G)\<^sup>*) \<and>
      (\<forall>n dx. dists s n = Some dx \<longrightarrow> (\<forall>e \<in> set (fringe s). dx \<le> fst e)))"

definition search_inv :: "'w::linorder graph \<Rightarrow> node \<Rightarrow> node \<Rightarrow> 'w bidi \<Rightarrow> bool" where
  "search_inv G source target st =
     (side_inv G source (forward st) \<and> side_inv G target (backward st))"

text \<open>A graph with two components: \<open>A\<close> and \<open>B\<close> are linked, \<open>C\<close> is alone.\<close>

definition islands :: "nat graph" where
  "islands = [(''A'', [(''B'', 1)]), (''B'', [(''A'', 1)]), (''C'', [])]"

subsection \<open>Walks and the invariant of the recorded paths\<close>

text \<open>
  A walk is a non-empty list of names whose consecutive pairs are edges of the graph.
  The invariant of the dict \<^verbatim>\<open>paths\<close> of one direction with root \<open>r\<close>: every recorded path
  is a walk from \<open>r\<close> to its key; and of \<^verbatim>\<open>finalpath\<close>: it is empty or a walk from the
  source to the target, and not empty once a node is seen from both ends.
\<close>

fun is_walk :: "'w graph \<Rightarrow> node list \<Rightarrow> bool" where
  "is_walk G [] = False"
| "is_walk G [x] = True"
| "is_walk G (x # y # zs) = (has_edge G x y \<and> is_walk G (y # zs))"

definition walk_from_to :: "'w graph \<Rightarrow> node \<Rightarrow> node \<Rightarrow> node list \<Rightarrow> bool" where
  "walk_from_to G a b p = (is_walk G p \<and> hd p = a \<and> last p = b)"

definition side_paths :: "'w graph \<Rightarrow> node \<Rightarrow> 'w search \<Rightarrow> bool" where
  "side_paths G r s =
     ((\<forall>e \<in> set (fringe s). seen s (snd (snd e)) \<noteq> None) \<and>
      (\<forall>n. dists s n \<noteq> None \<longrightarrow> seen s n \<noteq> None) \<and>
      (\<forall>n p. paths s n = Some p \<longrightarrow> walk_from_to G r n p))"

definition walk_inv :: "'w graph \<Rightarrow> node \<Rightarrow> node \<Rightarrow> 'w bidi \<Rightarrow> bool" where
  "walk_inv G source target st =
     (side_paths G source (forward st) \<and> side_paths G target (backward st) \<and>
      (finalpath st = [] \<or> walk_from_to G source target (finalpath st)) \<and>
      (\<forall>w. seen (forward st) w \<noteq> None \<and> seen (backward st) w \<noteq> None \<longrightarrow> finalpath st \<noteq> []))"

text \<open>The weights stored in a graph.\<close>

definition all_weights :: "'w graph \<Rightarrow> 'w set" where
  "all_weights G = {c. \<exists>u nbrs v. (u, nbrs) \<in> set G \<and> (v, c) \<in> set nbrs}"

section \<open>Termination of the searches\<close>

lemma heap_least_mem: "heap_least node_lt m es \<in> set (m # es)"
  by (induction es arbitrary: m) auto

lemma heappop_length:
  "heappop node_lt h = Some (m, h') \<Longrightarrow> m \<in> set h \<and> Suc (length h') = length h"
proof -
  assume a: "heappop node_lt h = Some (m, h')"
  then obtain e es where h: "h = e # es" by (cases h) (auto simp: heappop_def)
  from a h have m: "m = heap_least node_lt e es" and h': "h' = remove1 m h"
    by (auto simp: heappop_def Let_def)
  from m h have "m \<in> set h" using heap_least_mem [of node_lt e es] by simp
  moreover from this h' have "Suc (length h') = length h"
    by (simp add: length_remove1) (metis Suc_pred length_pos_if_in_set)
  ultimately show ?thesis by simp
qed

lemma set_final_dists:
  "set_final w t st = Inr st' \<Longrightarrow>
   dists (forward st') = dists (forward st) \<and> dists (backward st') = dists (backward st)"
  by (auto simp: set_final_def split: option.splits)

lemma meet_dists:
  "meet w st = Inr st' \<Longrightarrow>
   dists (forward st') = dists (forward st) \<and> dists (backward st') = dists (backward st)"
  by (auto simp: meet_def Let_def split: option.splits if_splits dest: set_final_dists)

lemma relax_edge_dists:
  "relax_edge d v e st = Inr st' \<Longrightarrow>
   dists (forward st') = dists (forward st) \<and> dists (backward st') = dists (backward st)"
  by (auto simp: relax_edge_def Let_def side_def set_side_def
      split: option.splits if_splits dest!: meet_dists)

lemma relax_dists:
  "relax d v es st = Inr st' \<Longrightarrow>
   dists (forward st') = dists (forward st) \<and> dists (backward st') = dists (backward st)"
proof (induction es arbitrary: st)
  case Nil
  then show ?case by simp
next
  case (Cons e es)
  then show ?case
    by (auto split: sum.splits dest!: relax_edge_dists)
qed

lemma unsettled_less:
  assumes "map_of G v = Some nbrs" and "m v = None"
  shows "unsettled G (m(v \<mapsto> x)) < unsettled G m"
proof -
  have v: "v \<in> set (map fst G)"
    using assms(1) by (metis map_of_SomeD fst_conv image_eqI set_map)
  have "{n \<in> set (map fst G). (m(v \<mapsto> x)) n = None} \<subset> {n \<in> set (map fst G). m n = None}"
    using v assms(2) by auto
  then show ?thesis
    unfolding unsettled_def by (intro psubset_card_mono) auto
qed

lemma bidi_step_decreases:
  assumes "bidi_step node_lt G st = Inr st'"
    and "fringe (forward st) \<noteq> []" and "fringe (backward st) \<noteq> []"
  shows "(bidi_size G st', bidi_size G st) \<in> less_than <*lex*> less_than"
  using assms
  by (auto simp: bidi_step_def Let_def bidi_size_def side_def set_side_def unsettled_less
      split: option.splits if_splits sum.splits dest!: heappop_length relax_dists)

termination bidi_loop
proof (relation "inv_image (less_than <*lex*> less_than) (\<lambda>(node_lt, G, st). bidi_size G st)",
    goal_cases)
  case 1
  show ?case by (intro wf_inv_image wf_lex_prod wf_less_than)
next
  case (2 node_lt G st st')
  then show ?case
    using bidi_step_decreases [of node_lt G st st'] by simp
qed

lemma uni_relax_edge_dist: "uni_relax_edge v e st = Inr st' \<Longrightarrow> u_dist st' = u_dist st"
  by (auto simp: uni_relax_edge_def Let_def split: option.splits if_splits)

lemma uni_relax_dist: "uni_relax v es st = Inr st' \<Longrightarrow> u_dist st' = u_dist st"
proof (induction es arbitrary: st)
  case Nil
  then show ?case by simp
next
  case (Cons e es)
  then show ?case
    by (auto split: sum.splits dest!: uni_relax_edge_dist)
qed

lemma uni_step_decreases:
  assumes "uni_step node_lt G target st = Inr st'"
  shows "(uni_size G st', uni_size G st) \<in> less_than <*lex*> less_than"
  using assms
  by (auto simp: uni_step_def Let_def uni_size_def unsettled_less
      split: option.splits if_splits sum.splits dest!: heappop_length uni_relax_dist)

termination uni_loop
proof (relation "inv_image (less_than <*lex*> less_than) (\<lambda>(node_lt, G, target, st). uni_size G st)",
    goal_cases)
  case 1
  show ?case by (intro wf_inv_image wf_lex_prod wf_less_than)
next
  case (2 node_lt G target st st')
  then show ?case
    using uni_step_decreases [of node_lt G target st st'] by simp
qed

section \<open>The solver on missing and on equal endpoints\<close>

text \<open>
  Claim C1. If \<open>start\<close> is not a node of the graph, \<open>find_shortest_path\<close> fails with
  \<^verbatim>\<open>NodeNotFound\<close> carrying \<open>start\<close>; if \<open>start\<close> is a node and \<open>end\<close> is not, it fails
  with \<^verbatim>\<open>NodeNotFound\<close> carrying \<open>end\<close>. The exception is raised by networkx and is
  not caught by the script, so it is neither a success nor the no-path result.
\<close>

theorem find_shortest_path_missing_node:
  "(\<not> has_node G start \<longrightarrow>
      find_shortest_path node_lt G start end = Inl (NodeNotFound start)) \<and>
   (has_node G start \<and> \<not> has_node G end \<longrightarrow>
      find_shortest_path node_lt G start end = Inl (NodeNotFound end))"
  by (simp add: find_shortest_path_def shortest_path_def bidirectional_dijkstra_def)

theorem find_shortest_path_missing_node_witness:
  "\<not> has_node [(''A'', [(''B'', 1::nat)]), (''B'', [(''A'', 1)])] ''X'' \<and>
   find_shortest_path (\<lambda>a b. False) [(''A'', [(''B'', 1::nat)]), (''B'', [(''A'', 1)])] ''X'' ''B''
     = Inl (NodeNotFound ''X'') \<and>
   has_node [(''A'', [(''B'', 1::nat)]), (''B'', [(''A'', 1)])] ''A'' \<and>
   \<not> has_node [(''A'', [(''B'', 1::nat)]), (''B'', [(''A'', 1)])] ''Y'' \<and>
   find_shortest_path (\<lambda>a b. False) [(''A'', [(''B'', 1::nat)]), (''B'', [(''A'', 1)])] ''A'' ''Y''
     = Inl (NodeNotFound ''Y'')"
  using find_shortest_path_missing_node
      [of "[(''A'', [(''B'', 1::nat)]), (''B'', [(''A'', 1)])]" "''X''" "\<lambda>a b. False" "''B''"]
    find_shortest_path_missing_node
      [of "[(''A'', [(''B'', 1::nat)]), (''B'', [(''A'', 1)])]" "''A''" "\<lambda>a b. False" "''Y''"]
  by (simp add: has_node_def dict_has_def)

text \<open>
  Claim C5. For a node \<open>X\<close> of the graph, \<open>find_shortest_path\<close> from \<open>X\<close> to \<open>X\<close> returns
  the path \<open>[X]\<close> with weight 0, whatever the edges of the graph are: neither search
  loop is entered.
\<close>

theorem find_shortest_path_same_node:
  "has_node G X \<Longrightarrow> find_shortest_path node_lt G X X = Inr ([X], Finite 0)"
  by (simp add: find_shortest_path_def shortest_path_def bidirectional_dijkstra_def
      shortest_path_length_def dijkstra_path_length_def)

theorem find_shortest_path_same_node_witness:
  "has_node [(''A'', [(''B'', 1::nat)]), (''B'', [(''A'', 1)])] ''B'' \<and>
   find_shortest_path (\<lambda>a b. False) [(''A'', [(''B'', 1::nat)]), (''B'', [(''A'', 1)])] ''B'' ''B''
     = Inr ([''B''], Finite 0)"
  using find_shortest_path_same_node
      [of "[(''A'', [(''B'', 1::nat)]), (''B'', [(''A'', 1)])]" "''B''" "\<lambda>a b. False"]
  by (simp add: has_node_def dict_has_def)

section \<open>The built graph\<close>

lemma map_of_dict_set: "map_of (dict_set k v d) x = (if x = k then Some v else map_of d x)"
  by (induction d) auto

lemma length_dict_set:
  "length (dict_set k v d) = (if dict_has d k then length d else Suc (length d))"
  by (induction d) (auto simp: dict_has_def)

lemma dict_has_dict_set: "dict_has (dict_set k v d) x = (x = k \<or> dict_has d x)"
  by (simp add: dict_has_def map_of_dict_set)

lemma map_of_adj_set:
  "map_of (adj_set u v w G) x =
     (if x = u then map_option (dict_set v w) (map_of G u) else map_of G x)"
  by (induction G) auto

lemma has_node_adj_set: "has_node (adj_set u v w G) x = has_node G x"
  by (simp add: has_node_def dict_has_def map_of_adj_set)

lemma has_edge_adj_set:
  "has_node G u \<Longrightarrow>
   has_edge (adj_set u v w G) a b = (has_edge G a b \<or> (a = u \<and> b = v))"
  by (auto simp: has_edge_def has_node_def dict_has_def map_of_adj_set map_of_dict_set
      split: option.splits)

lemma degree_dict_set:
  "degree (u, dict_set v w nbrs) =
     degree (u, nbrs) + (if dict_has nbrs v then 0 else if u = v then 2 else 1)"
  by (auto simp: degree_def length_dict_set dict_has_dict_set)

lemma sum_degree_adj_set:
  "has_node G u \<Longrightarrow>
   sum_list (map degree (adj_set u v w G)) =
     sum_list (map degree G) + (if has_edge G u v then 0 else if u = v then 2 else 1)"
proof (induction G)
  case Nil
  then show ?case by (simp add: has_node_def dict_has_def)
next
  case (Cons p G)
  show ?case
  proof (cases "fst p = u")
    case True
    then have p: "p = (u, snd p)" by (cases p) simp
    have "has_edge (p # G) u v = dict_has (snd p) v"
      using True by (simp add: has_edge_def)
    moreover have "degree p = degree (u, snd p)" using p by simp
    ultimately show ?thesis
      using True by (simp add: degree_dict_set)
  next
    case False
    then have "has_node G u" and "has_edge (p # G) u v = has_edge G u v"
      using Cons.prems by (auto simp: has_node_def dict_has_def has_edge_def)
    then show ?thesis
      using False Cons.IH by simp
  qed
qed

lemma map_of_add_node:
  "map_of (add_node n G) x = (if x = n \<and> \<not> has_node G n then Some [] else map_of G x)"
  by (auto simp: add_node_def has_node_def dict_has_def map_add_def split: option.splits)

lemma has_node_add_node: "has_node (add_node n G) x = (x = n \<or> has_node G x)"
  by (auto simp: has_node_def dict_has_def map_of_add_node)

lemma has_edge_add_node: "has_edge (add_node n G) a b = has_edge G a b"
  by (auto simp: has_edge_def map_of_add_node has_node_def dict_has_def split: option.splits)

lemma sum_degree_add_node: "sum_list (map degree (add_node n G)) = sum_list (map degree G)"
  by (simp add: add_node_def degree_def dict_has_def)

lemma has_node_add_edge: "has_node (add_edge u v w G) x = (x = u \<or> x = v \<or> has_node G x)"
  by (auto simp: add_edge_def has_node_adj_set has_node_add_node)

lemma has_edge_add_edge:
  "has_edge (add_edge u v w G) a b =
     (has_edge G a b \<or> (a = u \<and> b = v) \<or> (a = v \<and> b = u))"
  by (auto simp: add_edge_def has_edge_adj_set has_node_adj_set has_node_add_node
      has_edge_add_node)

lemma sum_degree_add_edge:
  assumes "symmetric G"
  shows "sum_list (map degree (add_edge u v w G)) =
     sum_list (map degree G) + (if has_edge G u v then 0 else 2)"
proof -
  let ?G1 = "add_node v (add_node u G)"
  let ?G2 = "adj_set u v w ?G1"
  have n1: "has_node ?G1 u" "has_node ?G1 v" by (simp_all add: has_node_add_node)
  have n2: "has_node ?G2 v" using n1 by (simp add: has_node_adj_set)
  have e1: "has_edge ?G1 u v = has_edge G u v" by (simp add: has_edge_add_node)
  have e2: "has_edge ?G2 v u = (has_edge G u v \<or> u = v)"
    using n1 assms by (auto simp: has_edge_adj_set has_edge_add_node symmetric_def)
  have "sum_list (map degree (add_edge u v w G)) =
      sum_list (map degree ?G2) + (if has_edge ?G2 v u then 0 else if v = u then 2 else 1)"
    unfolding add_edge_def using n2 by (rule sum_degree_adj_set)
  also have "sum_list (map degree ?G2) =
      sum_list (map degree ?G1) + (if has_edge ?G1 u v then 0 else if u = v then 2 else 1)"
    using n1(1) by (rule sum_degree_adj_set)
  also have "sum_list (map degree ?G1) = sum_list (map degree G)"
    by (simp add: sum_degree_add_node)
  finally show ?thesis
    using e1 e2 by auto
qed

lemma symmetric_add_edge: "symmetric G \<Longrightarrow> symmetric (add_edge u v w G)"
  by (auto simp: symmetric_def has_edge_add_edge)

lemma edge_set_add_edge: "edge_set (add_edge u v w G) = insert {u, v} (edge_set G)"
  by (auto simp: edge_set_def has_edge_add_edge doubleton_eq_iff)

lemma has_edge_nodes:
  "has_edge G u v \<Longrightarrow> u \<in> fst ` set G \<and> v \<in> fst ` (\<Union>p \<in> set G. set (snd p))"
proof -
  assume "has_edge G u v"
  then obtain nbrs w where g: "map_of G u = Some nbrs" and n: "map_of nbrs v = Some w"
    by (auto simp: has_edge_def dict_has_def split: option.splits)
  from g have "(u, nbrs) \<in> set G" by (rule map_of_SomeD)
  moreover from n have "(v, w) \<in> set nbrs" by (rule map_of_SomeD)
  ultimately show ?thesis by force
qed

lemma finite_edge_set: "finite (edge_set G)"
proof -
  let ?A = "fst ` set G" and ?B = "fst ` (\<Union>p \<in> set G. set (snd p))"
  have "edge_set G \<subseteq> (\<lambda>(u, v). {u, v}) ` (?A \<times> ?B)"
    unfolding edge_set_def using has_edge_nodes [of G] by fastforce
  moreover have "finite ((\<lambda>(u, v). {u, v}) ` (?A \<times> ?B))" by simp
  ultimately show ?thesis by (rule finite_subset)
qed

lemma edge_set_mem: "symmetric G \<Longrightarrow> ({u, v} \<in> edge_set G) = has_edge G u v"
  by (auto simp: edge_set_def symmetric_def doubleton_eq_iff)

lemma degrees_ok_add_edge:
  assumes "degrees_ok G"
  shows "degrees_ok (add_edge u v w G)"
proof -
  from assms have s: "symmetric G" and d: "sum_list (map degree G) = 2 * card (edge_set G)"
    by (simp_all add: degrees_ok_def)
  have "card (edge_set (add_edge u v w G)) =
      card (edge_set G) + (if has_edge G u v then 0 else 1)"
    using finite_edge_set [of G] edge_set_mem [OF s, of u v]
    by (simp add: edge_set_add_edge card_insert_if)
  then show ?thesis
    using s d by (simp add: degrees_ok_def symmetric_add_edge sum_degree_add_edge)
qed

lemma degrees_ok_add_node: "degrees_ok G \<Longrightarrow> degrees_ok (add_node n G)"
  by (simp add: degrees_ok_def symmetric_def has_edge_add_node sum_degree_add_node edge_set_def)

lemma degrees_ok_Nil: "degrees_ok []"
  by (simp add: degrees_ok_def symmetric_def has_edge_def edge_set_def)

lemma fold_add_node:
  "degrees_ok G \<Longrightarrow>
   degrees_ok (fold add_node ns G) \<and>
   (\<forall>x. has_node (fold add_node ns G) x = (x \<in> set ns \<or> has_node G x)) \<and>
   (\<forall>a b. has_edge (fold add_node ns G) a b = has_edge G a b)"
  by (induction ns arbitrary: G)
    (auto simp: degrees_ok_add_node has_node_add_node has_edge_add_node)

lemma add_connections_graph:
  assumes "add_connections haversine coordinates connections G = Inr G'"
    and "degrees_ok G"
  shows "degrees_ok G' \<and>
    (\<forall>a b. has_edge G' a b =
       (has_edge G a b \<or>
        (((a, b) \<in> set connections \<or> (b, a) \<in> set connections) \<and>
         dict_has coordinates a \<and> dict_has coordinates b))) \<and>
    (\<forall>x. has_node G' x =
       (has_node G x \<or>
        (\<exists>y. ((x, y) \<in> set connections \<or> (y, x) \<in> set connections) \<and>
           dict_has coordinates x \<and> dict_has coordinates y)))"
  using assms
proof (induction haversine coordinates connections G rule: add_connections.induct)
  case (1 haversine coordinates G)
  then show ?case by simp
next
  case (2 haversine coordinates from_city to_city rest G)
  show ?case
  proof (cases "map_of coordinates from_city")
    case None
    with 2 show ?thesis by (auto simp: dict_has_def)
  next
    case c1: (Some coord1)
    show ?thesis
    proof (cases "map_of coordinates to_city")
      case None
      with 2 c1 show ?thesis by (auto simp: dict_has_def)
    next
      case c2: (Some coord2)
      from "2.prems"(1) c1 c2 obtain distance where
        d: "calculate_haversine_distance haversine coord1 coord2 = Inr distance"
        and r: "add_connections haversine coordinates rest
                  (add_edge from_city to_city distance G) = Inr G'"
        by (auto split: sum.splits)
      have ok: "degrees_ok (add_edge from_city to_city distance G)"
        using "2.prems"(2) by (rule degrees_ok_add_edge)
      have ih: "degrees_ok G' \<and>
        (\<forall>a b. has_edge G' a b =
           (has_edge (add_edge from_city to_city distance G) a b \<or>
            (((a, b) \<in> set rest \<or> (b, a) \<in> set rest) \<and>
             dict_has coordinates a \<and> dict_has coordinates b))) \<and>
        (\<forall>x. has_node G' x =
           (has_node (add_edge from_city to_city distance G) x \<or>
            (\<exists>y. ((x, y) \<in> set rest \<or> (y, x) \<in> set rest) \<and>
               dict_has coordinates x \<and> dict_has coordinates y)))"
        using "2.IH"(3) [OF c1 c2 d r ok] .
      have k: "dict_has coordinates from_city" "dict_has coordinates to_city"
        using c1 c2 by (simp_all add: dict_has_def)
      show ?thesis
        using ih k by (auto simp: has_edge_add_edge has_node_add_edge)
    qed
  qed
qed

lemma build_flight_graph_edges:
  fixes G :: "'w graph"
  assumes "build_flight_graph haversine coordinates connections = Inr G"
  shows "degrees_ok G"
    and "has_edge G a b =
       (((a, b) \<in> set connections \<or> (b, a) \<in> set connections) \<and>
        dict_has coordinates a \<and> dict_has coordinates b)"
    and "has_node G x = dict_has coordinates x"
proof -
  let ?G0 = "fold add_node (dict_keys coordinates) ([] :: 'w graph)"
  have f: "degrees_ok ?G0 \<and>
      (\<forall>x. has_node ?G0 x = (x \<in> set (dict_keys coordinates) \<or> has_node ([] :: 'w graph) x)) \<and>
      (\<forall>a b. has_edge ?G0 a b = has_edge ([] :: 'w graph) a b)"
    using degrees_ok_Nil by (rule fold_add_node)
  have g0: "degrees_ok ?G0" "\<And>x. has_node ?G0 x = (x \<in> set (dict_keys coordinates))"
    "\<And>a b. \<not> has_edge ?G0 a b"
  proof -
    show "degrees_ok ?G0" using f by simp
    show "\<And>x. has_node ?G0 x = (x \<in> set (dict_keys coordinates))"
      using f by (simp add: has_node_def [of "[]"] dict_has_def)
    show "\<And>a b. \<not> has_edge ?G0 a b"
      using f by (simp add: has_edge_def [of "[]"])
  qed
  have k: "\<And>x. (x \<in> set (dict_keys coordinates)) = dict_has coordinates x"
    by (auto simp: dict_keys_def dict_has_def map_of_eq_None_iff)
  note r = add_connections_graph [OF assms [unfolded build_flight_graph_def] g0(1)]
  show "degrees_ok G" using r by simp
  show "has_edge G a b =
       (((a, b) \<in> set connections \<or> (b, a) \<in> set connections) \<and>
        dict_has coordinates a \<and> dict_has coordinates b)"
    using r g0(3) by simp
  show "has_node G x = dict_has coordinates x"
    using r g0(2) k by auto
qed

text \<open>
  Claim C2, as the code has it. \<open>build_flight_graph\<close> does not compare the two names of a
  connection: the built graph has a self-loop at \<open>x\<close> exactly when the connection list
  holds the pair \<open>(x, x)\<close> and \<open>x\<close> has coordinates. So a graph built from connections
  without such a pair has no self-loop, and a pair \<open>(x, x)\<close> of a known city is kept.
\<close>

theorem build_keeps_self_loops:
  "build_flight_graph haversine coordinates connections = Inr G \<Longrightarrow>
   has_edge G x x = ((x, x) \<in> set connections \<and> dict_has coordinates x)"
  by (auto simp: build_flight_graph_edges(2))

theorem build_keeps_self_loops_witness:
  "build_flight_graph flat_distance [(''A'', (0, 0)), (''B'', (0, 1))] [(''A'', ''B'')]
     = Inr [(''A'', [(''B'', 1)]), (''B'', [(''A'', 1)])] \<and>
   has_edge [(''A'', [(''B'', 1::nat)]), (''B'', [(''A'', 1)])] ''A'' ''A'' =
     ((''A'', ''A'') \<in> set [(''A'', ''B'')] \<and> dict_has [(''A'', (0::int, 0::int)), (''B'', (0, 1))] ''A'')"
proof -
  have b: "build_flight_graph flat_distance [(''A'', (0, 0)), (''B'', (0, 1))] [(''A'', ''B'')]
     = Inr [(''A'', [(''B'', 1)]), (''B'', [(''A'', 1)])]"
    by code_simp
  show ?thesis
    using b build_keeps_self_loops [OF b, of "''A''"] by simp
qed

text \<open>
  The claim as stated (no built graph has a self-loop) fails for the single city \<open>A\<close>
  and the single connection \<open>(A, A)\<close>.
\<close>

theorem build_self_loop_counterexample:
  "build_flight_graph flat_distance [(''A'', (0, 0))] [(''A'', ''A'')]
     = Inr [(''A'', [(''A'', 0)])] \<and>
   has_edge [(''A'', [(''A'', 0::nat)])] ''A'' ''A''"
  by code_simp

text \<open>
  Claim C6, as the code has it. Every edge of the built graph joins two cities that have
  coordinates, and \<^verbatim>\<open>number_of_edges\<close> is the number of distinct unordered pairs named
  by the connections with two known endpoints: repeated and reversed connections count
  once, and a pair \<open>(x, x)\<close> counts as an edge.
\<close>

theorem build_edge_count:
  assumes "build_flight_graph haversine coordinates connections = Inr G"
  shows "(\<forall>a b. has_edge G a b \<longrightarrow> dict_has coordinates a \<and> dict_has coordinates b) \<and>
    number_of_edges G = card (known_pairs coordinates connections)"
proof -
  note e = build_flight_graph_edges [OF assms]
  have "edge_set G = known_pairs coordinates connections"
    unfolding edge_set_def known_pairs_def e(2) by (auto simp: doubleton_eq_iff)
  then show ?thesis
    using e(1) by (simp add: e(2) degrees_ok_def number_of_edges_def)
qed

theorem build_edge_count_witness:
  "build_flight_graph flat_distance
     [(''A'', (0, 0)), (''B'', (0, 1)), (''C'', (0, 2))]
     [(''A'', ''B''), (''B'', ''A''), (''A'', ''Z''), (''A'', ''B''), (''B'', ''C'')]
     = Inr [(''A'', [(''B'', 1)]), (''B'', [(''A'', 1), (''C'', 1)]), (''C'', [(''B'', 1)])] \<and>
   number_of_edges [(''A'', [(''B'', 1::nat)]), (''B'', [(''A'', 1), (''C'', 1)]), (''C'', [(''B'', 1)])]
     = card (known_pairs [(''A'', (0::int, 0::int)), (''B'', (0, 1)), (''C'', (0, 2))]
         [(''A'', ''B''), (''B'', ''A''), (''A'', ''Z''), (''A'', ''B''), (''B'', ''C'')]) \<and>
   number_of_edges [(''A'', [(''B'', 1::nat)]), (''B'', [(''A'', 1), (''C'', 1)]), (''C'', [(''B'', 1)])]
     = 2"
proof -
  have b: "build_flight_graph flat_distance
     [(''A'', (0, 0)), (''B'', (0, 1)), (''C'', (0, 2))]
     [(''A'', ''B''), (''B'', ''A''), (''A'', ''Z''), (''A'', ''B''), (''B'', ''C'')]
     = Inr [(''A'', [(''B'', 1)]), (''B'', [(''A'', 1), (''C'', 1)]), (''C'', [(''B'', 1)])]"
    by code_simp
  have n: "number_of_edges
     [(''A'', [(''B'', 1::nat)]), (''B'', [(''A'', 1), (''C'', 1)]), (''C'', [(''B'', 1)])] = 2"
    by code_simp
  show ?thesis
    using b n build_edge_count [OF b] by simp
qed

text \<open>
  The claim as stated subtracts the self-loops: for the cities \<open>A\<close>, \<open>B\<close> and the
  connections \<open>(A, B)\<close>, \<open>(A, A)\<close> the graph has 2 edges, the count of the claim is 1.
\<close>

theorem build_edge_count_counterexample:
  "build_flight_graph flat_distance
     [(''A'', (0, 0)), (''B'', (0, 1))] [(''A'', ''B''), (''A'', ''A'')]
     = Inr [(''A'', [(''B'', 1), (''A'', 0)]), (''B'', [(''A'', 1)])] \<and>
   number_of_edges [(''A'', [(''B'', 1::nat), (''A'', 0)]), (''B'', [(''A'', 1)])] = 2 \<and>
   card (known_proper_pairs [(''A'', (0::int, 0::int)), (''B'', (0, 1))]
     [(''A'', ''B''), (''A'', ''A'')]) = 1"
proof -
  have b: "build_flight_graph flat_distance
     [(''A'', (0, 0)), (''B'', (0, 1))] [(''A'', ''B''), (''A'', ''A'')]
     = Inr [(''A'', [(''B'', 1), (''A'', 0)]), (''B'', [(''A'', 1)])]"
    by code_simp
  have n: "number_of_edges [(''A'', [(''B'', 1::nat), (''A'', 0)]), (''B'', [(''A'', 1)])] = 2"
    by code_simp
  have "known_proper_pairs [(''A'', (0::int, 0::int)), (''B'', (0, 1))]
     [(''A'', ''B''), (''A'', ''A'')] = {{''A'', ''B''}}"
    by (auto simp: known_proper_pairs_def dict_has_def)
  then show ?thesis
    using b n by simp
qed

section \<open>The parsers\<close>

lemma parse_city_rows_append:
  "parse_city_rows py_float (xs @ ys) acc =
     parse_city_rows py_float ys (parse_city_rows py_float xs acc)"
  by (induction xs arbitrary: acc) (auto split: option.splits)

lemma parse_city_rows_other:
  "\<forall>r \<in> set rows. row_city py_float r \<noteq> Some n \<Longrightarrow>
   map_of (parse_city_rows py_float rows acc) n = map_of acc n"
  by (induction rows arbitrary: acc)
    (auto simp: row_city_def map_of_dict_set split: option.splits)

lemma dict_keys_dict_set:
  "dict_keys (dict_set k v d) = (if dict_has d k then dict_keys d else dict_keys d @ [k])"
  by (induction d) (auto simp: dict_keys_def dict_has_def)

lemma dict_has_keys: "dict_has d k = (k \<in> set (dict_keys d))"
  by (auto simp: dict_keys_def dict_has_def map_of_eq_None_iff)

lemma distinct_dict_set: "distinct (dict_keys d) \<Longrightarrow> distinct (dict_keys (dict_set k v d))"
  by (simp add: dict_keys_dict_set dict_has_keys)

lemma distinct_parse_city_rows:
  "distinct (dict_keys acc) \<Longrightarrow> distinct (dict_keys (parse_city_rows py_float rows acc))"
  by (induction rows arbitrary: acc) (auto simp: distinct_dict_set split: option.splits)

lemma parse_flight_connections_append:
  "parse_flight_connections (xs @ ys) = parse_flight_connections xs @ parse_flight_connections ys"
  by (induction xs) (auto split: option.splits)

lemma parse_city_row_short: "length r < 3 \<Longrightarrow> parse_city_row py_float r = None"
  by (cases "(py_float, r)" rule: parse_city_row.cases) auto

lemma parse_flight_row_short: "length r < 2 \<Longrightarrow> parse_flight_row r = None"
  by (cases r rule: parse_flight_row.cases) auto

lemma parse_city_rows_skip:
  "parse_city_row py_float r = None \<Longrightarrow>
   parse_city_coordinates py_float (pre @ r # post) = parse_city_coordinates py_float (pre @ post)"
  by (simp add: parse_city_coordinates_def parse_city_rows_append)

lemma parse_flight_connections_skip:
  "parse_flight_row r = None \<Longrightarrow>
   parse_flight_connections (pre @ r # post) = parse_flight_connections (pre @ post)"
  by (simp add: parse_flight_connections_append)

text \<open>
  Claim C10. When a city appears in several well-formed rows, the mapping returned by
  \<open>parse_city_coordinates\<close> gives it the latitude and longitude of the last of them
  (the row after which no well-formed row names the city), and the keys of the mapping
  are distinct.
\<close>

theorem parse_city_coordinates_last_wins:
  assumes "py_float c1 = Some lat" and "py_float c2 = Some lon"
    and "\<forall>r \<in> set later. row_city py_float r \<noteq> Some city"
  shows "map_of (parse_city_coordinates py_float (earlier @ (city # c1 # c2 # rest) # later)) city
           = Some (lat, lon) \<and>
         distinct (dict_keys (parse_city_coordinates py_float
           (earlier @ (city # c1 # c2 # rest) # later)))"
proof -
  have "map_of (parse_city_rows py_float ((city # c1 # c2 # rest) # later)
          (parse_city_rows py_float earlier [])) city = Some (lat, lon)"
    using assms by (simp add: parse_city_rows_other map_of_dict_set)
  moreover have "distinct (dict_keys (parse_city_rows py_float
      (earlier @ (city # c1 # c2 # rest) # later) []))"
    by (rule distinct_parse_city_rows) (simp add: dict_keys_def)
  ultimately show ?thesis
    by (simp add: parse_city_coordinates_def parse_city_rows_append)
qed

theorem parse_city_coordinates_last_wins_witness:
  "example_float ''2'' = Some 2 \<and>
   row_city example_float [''Rome'', ''x'', ''0''] \<noteq> Some ''Oslo'' \<and>
   map_of (parse_city_coordinates example_float
     ([[''Oslo'', ''0'', ''1''], [''Rome'', ''1'', ''1'']] @ [''Oslo'', ''2'', ''2''] #
      [[''Rome'', ''x'', ''0'']])) ''Oslo'' = Some (2, 2) \<and>
   distinct (dict_keys (parse_city_coordinates example_float
     ([[''Oslo'', ''0'', ''1''], [''Rome'', ''1'', ''1'']] @ [''Oslo'', ''2'', ''2''] #
      [[''Rome'', ''x'', ''0'']])))"
proof -
  have f: "example_float ''2'' = Some 2" by (simp add: example_float_def)
  have l: "\<forall>r \<in> set [[''Rome'', ''x'', ''0'']]. row_city example_float r \<noteq> Some ''Oslo''"
    by (simp add: row_city_def example_float_def)
  show ?thesis
    using f l parse_city_coordinates_last_wins [OF f f l, of
        "[[''Oslo'', ''0'', ''1''], [''Rome'', ''1'', ''1'']]" "[]"]
    by simp
qed

text \<open>
  Claim C9. Both parsers are total functions: a malformed row is skipped and the result
  is the one of the table without that row. For the coordinate table that is a row with
  a cell \<^verbatim>\<open>float\<close> rejects, or with fewer than three cells; for the connection table a
  row with an empty endpoint, or with fewer than two cells. A name that no well-formed
  row of the coordinate table assigns is not a node of the graph built from the parsed
  coordinates.
\<close>

theorem malformed_records_dropped:
  "(py_float c1 = None \<or> py_float c2 = None \<longrightarrow>
      parse_city_coordinates py_float (pre @ (city # c1 # c2 # rest) # post) =
        parse_city_coordinates py_float (pre @ post)) \<and>
   (length r < 3 \<longrightarrow>
      parse_city_coordinates py_float (pre @ r # post) =
        parse_city_coordinates py_float (pre @ post)) \<and>
   (from_city = [] \<or> to_city = [] \<longrightarrow>
      parse_flight_connections (pre @ (from_city # to_city # rest) # post) =
        parse_flight_connections (pre @ post)) \<and>
   (length r < 2 \<longrightarrow>
      parse_flight_connections (pre @ r # post) = parse_flight_connections (pre @ post)) \<and>
   ((\<forall>row \<in> set rows. row_city py_float row \<noteq> Some n) \<and>
    build_flight_graph haversine (parse_city_coordinates py_float rows) connections = Inr G \<longrightarrow>
      \<not> has_node G n)"
proof (intro conjI impI)
  assume "py_float c1 = None \<or> py_float c2 = None"
  then have "parse_city_row py_float (city # c1 # c2 # rest) = None"
    by (auto split: option.splits)
  then show "parse_city_coordinates py_float (pre @ (city # c1 # c2 # rest) # post) =
      parse_city_coordinates py_float (pre @ post)"
    by (rule parse_city_rows_skip)
next
  assume "length r < 3"
  then have "parse_city_row py_float r = None" by (rule parse_city_row_short)
  then show "parse_city_coordinates py_float (pre @ r # post) =
      parse_city_coordinates py_float (pre @ post)"
    by (rule parse_city_rows_skip)
next
  assume "from_city = [] \<or> to_city = []"
  then have "parse_flight_row (from_city # to_city # rest) = None" by auto
  then show "parse_flight_connections (pre @ (from_city # to_city # rest) # post) =
      parse_flight_connections (pre @ post)"
    by (rule parse_flight_connections_skip)
next
  assume "length r < 2"
  then have "parse_flight_row r = None" by (rule parse_flight_row_short)
  then show "parse_flight_connections (pre @ r # post) = parse_flight_connections (pre @ post)"
    by (rule parse_flight_connections_skip)
next
  assume a: "(\<forall>row \<in> set rows. row_city py_float row \<noteq> Some n) \<and>
    build_flight_graph haversine (parse_city_coordinates py_float rows) connections = Inr G"
  then have b:
    "build_flight_graph haversine (parse_city_coordinates py_float rows) connections = Inr G"
    by simp
  have "has_node G n = dict_has (parse_city_coordinates py_float rows) n"
    using b by (rule build_flight_graph_edges(3))
  moreover have "map_of (parse_city_coordinates py_float rows) n = None"
    using a by (simp add: parse_city_coordinates_def parse_city_rows_other)
  ultimately show "\<not> has_node G n"
    by (simp add: dict_has_def)
qed

theorem malformed_records_dropped_witness:
  "(example_float ''x'' = None \<or> example_float ''0'' = None) \<and>
   parse_city_coordinates example_float
     ([[''Oslo'', ''0'', ''1'']] @ [''Rome'', ''x'', ''0''] # [[''Bonn'', ''1'', ''1'']]) =
   parse_city_coordinates example_float ([[''Oslo'', ''0'', ''1'']] @ [[''Bonn'', ''1'', ''1'']]) \<and>
   length [''Rome'', ''1''] < 3 \<and>
   parse_city_coordinates example_float
     ([[''Oslo'', ''0'', ''1'']] @ [''Rome'', ''1''] # [[''Bonn'', ''1'', ''1'']]) =
   parse_city_coordinates example_float ([[''Oslo'', ''0'', ''1'']] @ [[''Bonn'', ''1'', ''1'']]) \<and>
   (''Oslo'' = [] \<or> ([] :: string) = []) \<and>
   parse_flight_connections ([[''Oslo'', ''Bonn'']] @ [''Oslo'', []] # [[''Bonn'', ''Oslo'']]) =
   parse_flight_connections ([[''Oslo'', ''Bonn'']] @ [[''Bonn'', ''Oslo'']]) \<and>
   length [''Oslo''] < 2 \<and>
   parse_flight_connections ([[''Oslo'', ''Bonn'']] @ [''Oslo''] # [[''Bonn'', ''Oslo'']]) =
   parse_flight_connections ([[''Oslo'', ''Bonn'']] @ [[''Bonn'', ''Oslo'']]) \<and>
   row_city example_float [''Oslo'', ''0'', ''1''] \<noteq> Some ''Rome'' \<and>
   row_city example_float [''Rome'', ''x'', ''0''] \<noteq> Some ''Rome'' \<and>
   build_flight_graph flat_distance
     (parse_city_coordinates example_float [[''Oslo'', ''0'', ''1''], [''Rome'', ''x'', ''0'']])
     [(''Oslo'', ''Rome'')] = Inr [(''Oslo'', [])] \<and>
   \<not> has_node [(''Oslo'', [] :: nat adjacency)] ''Rome''"
proof -
  have h1: "example_float ''x'' = None \<or> example_float ''0'' = None"
    by (simp add: example_float_def)
  have h5: "(\<forall>row \<in> set [[''Oslo'', ''0'', ''1''], [''Rome'', ''x'', ''0'']].
      row_city example_float row \<noteq> Some ''Rome'')"
    by (simp add: row_city_def example_float_def)
  have b: "build_flight_graph flat_distance
     (parse_city_coordinates example_float [[''Oslo'', ''0'', ''1''], [''Rome'', ''x'', ''0'']])
     [(''Oslo'', ''Rome'')] = Inr [(''Oslo'', [])]"
    by code_simp
  have t1: "parse_city_coordinates example_float
     ([[''Oslo'', ''0'', ''1'']] @ [''Rome'', ''x'', ''0''] # [[''Bonn'', ''1'', ''1'']]) =
   parse_city_coordinates example_float ([[''Oslo'', ''0'', ''1'']] @ [[''Bonn'', ''1'', ''1'']])"
    using h1 malformed_records_dropped [where py_float = example_float
        and ?c1.0 = "''x''"
        and ?c2.0 = "''0''"
        and pre = "[[''Oslo'', ''0'', ''1'']]"
        and city = "''Rome''"
        and rest = "[]"
        and post = "[[''Bonn'', ''1'', ''1'']]"
        and r = "[]"
        and from_city = "''a''"
        and to_city = "''b''"
        and rows = "[]"
        and n = "''n''"
        and haversine = flat_distance
        and connections = "[]"
        and G = "[]"]
    by blast
  have t2: "parse_city_coordinates example_float
     ([[''Oslo'', ''0'', ''1'']] @ [''Rome'', ''1''] # [[''Bonn'', ''1'', ''1'']]) =
   parse_city_coordinates example_float ([[''Oslo'', ''0'', ''1'']] @ [[''Bonn'', ''1'', ''1'']])"
    using malformed_records_dropped [where py_float = example_float
        and ?c1.0 = "''0''"
        and ?c2.0 = "''0''"
        and pre = "[[''Oslo'', ''0'', ''1'']]"
        and city = "''c''"
        and rest = "[]"
        and post = "[[''Bonn'', ''1'', ''1'']]"
        and r = "[''Rome'', ''1'']"
        and from_city = "''a''"
        and to_city = "''b''"
        and rows = "[]"
        and n = "''n''"
        and haversine = flat_distance
        and connections = "[]"
        and G = "[]"]
    by simp
  have t3: "parse_flight_connections ([[''Oslo'', ''Bonn'']] @ [''Oslo'', []] # [[''Bonn'', ''Oslo'']]) =
   parse_flight_connections ([[''Oslo'', ''Bonn'']] @ [[''Bonn'', ''Oslo'']])"
    using malformed_records_dropped [where py_float = example_float
        and ?c1.0 = "''0''"
        and ?c2.0 = "''0''"
        and pre = "[[''Oslo'', ''Bonn'']]"
        and city = "''c''"
        and rest = "[]"
        and post = "[[''Bonn'', ''Oslo'']]"
        and r = "[]"
        and from_city = "''Oslo''"
        and to_city = "[]"
        and rows = "[]"
        and n = "''n''"
        and haversine = flat_distance
        and connections = "[]"
        and G = "[]"]
    by simp
  have t4: "parse_flight_connections ([[''Oslo'', ''Bonn'']] @ [''Oslo''] # [[''Bonn'', ''Oslo'']]) =
   parse_flight_connections ([[''Oslo'', ''Bonn'']] @ [[''Bonn'', ''Oslo'']])"
    using malformed_records_dropped [where py_float = example_float
        and ?c1.0 = "''0''"
        and ?c2.0 = "''0''"
        and pre = "[[''Oslo'', ''Bonn'']]"
        and city = "''c''"
        and rest = "[]"
        and post = "[[''Bonn'', ''Oslo'']]"
        and r = "[''Oslo'']"
        and from_city = "''a''"
        and to_city = "''b''"
        and rows = "[]"
        and n = "''n''"
        and haversine = flat_distance
        and connections = "[]"
        and G = "[]"]
    by simp
  have t5: "\<not> has_node [(''Oslo'', [] :: nat adjacency)] ''Rome''"
    using h5 b malformed_records_dropped [where py_float = example_float
        and ?c1.0 = "''0''"
        and ?c2.0 = "''0''"
        and pre = "[]"
        and city = "''c''"
        and rest = "[]"
        and post = "[]"
        and r = "[]"
        and from_city = "''a''"
        and to_city = "''b''"
        and rows = "[[''Oslo'', ''0'', ''1''], [''Rome'', ''x'', ''0'']]"
        and n = "''Rome''"
        and haversine = flat_distance
        and connections = "[(''Oslo'', ''Rome'')]"
        and G = "[(''Oslo'', [])]"]
    by blast
  show ?thesis
    using h1 h5 b t1 t2 t3 t4 t5 by simp
qed

section \<open>Ties in the heaps\<close>

lemma side_set_side [simp]: "side d' (set_side d s st) = (if d' = d then s else side d' st)"
  by (auto simp: side_def set_side_def)

lemma set_side_fields [simp]:
  "counter (set_side d s st) = counter st"
  "finaldist (set_side d s st) = finaldist st"
  "finalpath (set_side d s st) = finalpath st"
  "dir (set_side d s st) = dir st"
  by (simp_all add: set_side_def)

lemma side_updates [simp]:
  "side d (st\<lparr>counter := c\<rparr>) = side d st"
  "side d (st\<lparr>finaldist := fd\<rparr>) = side d st"
  "side d (st\<lparr>finalpath := fp\<rparr>) = side d st"
  "side d (st\<lparr>dir := b\<rparr>) = side d st"
  by (simp_all add: side_def)

lemma side_forward_backward: "forward st = side False st" "backward st = side True st"
  by (simp_all add: side_def)

lemma set_final_frame:
  "set_final w t st = Inr st' \<Longrightarrow>
   forward st' = forward st \<and> backward st' = backward st \<and> counter st' = counter st \<and>
   dir st' = dir st"
  by (cases "paths (forward st) w"; cases "paths (backward st) w")
    (auto simp: set_final_def)

lemma meet_frame:
  assumes "meet w st = Inr st'"
  shows "forward st' = forward st \<and> backward st' = backward st \<and> counter st' = counter st \<and>
   dir st' = dir st"
proof (cases "seen (forward st) w")
  case None
  with assms show ?thesis by (simp add: meet_def)
next
  case s0: (Some a0)
  show ?thesis
  proof (cases "seen (backward st) w")
    case None
    with assms s0 show ?thesis by (simp add: meet_def)
  next
    case s1: (Some a1)
    show ?thesis
    proof (cases "finalpath st = []")
      case True
      with assms s0 s1 have "set_final w (a0 + a1) st = Inr st'"
        by (simp add: meet_def Let_def)
      then show ?thesis by (rule set_final_frame)
    next
      case False
      show ?thesis
      proof (cases "finaldist st")
        case None
        with assms s0 s1 False show ?thesis by (simp add: meet_def Let_def)
      next
        case (Some fd)
        show ?thesis
        proof (cases "fd > a0 + a1")
          case True
          with assms s0 s1 False Some have "set_final w (a0 + a1) st = Inr st'"
            by (simp add: meet_def Let_def)
          then show ?thesis by (rule set_final_frame)
        next
          case f: False
          with assms s0 s1 False Some show ?thesis by (simp add: meet_def Let_def)
        qed
      qed
    qed
  qed
qed

lemma side_cong:
  "forward st' = forward st \<Longrightarrow> backward st' = backward st \<Longrightarrow> side d st' = side d st"
  by (simp add: side_def)

lemma entry_lt_count:
  "count_of a \<noteq> count_of b \<Longrightarrow> entry_lt node_lt a b = entry_lt node_lt' a b"
  by (simp add: entry_lt_def count_of_def)

lemma heap_least_node_lt:
  "count_of m \<notin> count_of ` set es \<Longrightarrow> distinct (map count_of es) \<Longrightarrow>
   heap_least node_lt m es = heap_least node_lt' m es"
proof (induction es arbitrary: m)
  case Nil
  then show ?case by simp
next
  case (Cons e es)
  from Cons.prems have "entry_lt node_lt e m = entry_lt node_lt' e m"
    by (intro entry_lt_count) auto
  moreover have "heap_least node_lt (if entry_lt node_lt' e m then e else m) es =
      heap_least node_lt' (if entry_lt node_lt' e m then e else m) es"
    using Cons.prems by (intro Cons.IH) auto
  ultimately show ?case by simp
qed

lemma distinct_map_remove1: "distinct (map f xs) \<Longrightarrow> distinct (map f (remove1 x xs))"
proof (induction xs)
  case Nil
  then show ?case by simp
next
  case (Cons a xs)
  have "f a \<notin> f ` set (remove1 x xs)"
    using Cons.prems set_remove1_subset [of x xs] by auto
  then show ?case
    using Cons by auto
qed

lemma heappop_Some:
  "heappop node_lt h = Some (m, h') \<Longrightarrow> m \<in> set h \<and> h' = remove1 m h"
proof -
  assume a: "heappop node_lt h = Some (m, h')"
  then obtain e es where h: "h = e # es" by (cases h) (auto simp: heappop_def)
  from a h have m: "m = heap_least node_lt e es" and h': "h' = remove1 m h"
    by (auto simp: heappop_def Let_def)
  from m h have "m \<in> set h" using heap_least_mem [of node_lt e es] by simp
  then show ?thesis using h' by simp
qed

lemma heappop_node_lt:
  assumes "heap_ok c h"
  shows "heappop node_lt h = heappop node_lt' h"
proof (cases h)
  case Nil
  then show ?thesis by (simp add: heappop_def)
next
  case (Cons e es)
  with assms have "count_of e \<notin> count_of ` set es" and "distinct (map count_of es)"
    by (auto simp: heap_ok_def)
  then have "heap_least node_lt e es = heap_least node_lt' e es"
    by (rule heap_least_node_lt)
  then show ?thesis
    using Cons by (simp add: heappop_def)
qed

lemma heappop_heap_ok:
  assumes "heap_ok c h" and "heappop node_lt h = Some (m, h')"
  shows "heap_ok c h'"
proof -
  from assms(2) have h': "h' = remove1 m h" by (simp add: heappop_Some)
  have "set h' \<subseteq> set h" unfolding h' by (rule set_remove1_subset)
  moreover have "distinct (map count_of h')"
    unfolding h' using assms(1) by (intro distinct_map_remove1) (simp add: heap_ok_def)
  ultimately show ?thesis
    using assms(1) by (auto simp: heap_ok_def)
qed

lemma heappush_heap_ok:
  "heap_ok c h \<Longrightarrow> heap_ok (Suc c) (heappush h (d, c, n))"
  by (auto simp: heap_ok_def heappush_def count_of_def)

lemma heap_ok_Suc: "heap_ok c h \<Longrightarrow> heap_ok (Suc c) h"
  by (auto simp: heap_ok_def)

lemma relax_edge_frame:
  assumes "relax_edge d v e st = Inr st'"
  shows "((\<forall>d'. side d' st' = side d' st) \<and> counter st' = counter st) \<or>
    (\<exists>dv pv. dists (side d st) v = Some dv \<and> paths (side d st) v = Some pv \<and>
       dists (side d st) (fst e) = None \<and>
       (\<forall>sw. seen (side d st) (fst e) = Some sw \<longrightarrow> dv + snd e < sw) \<and>
       side d st' =
         (side d st)\<lparr>seen := (seen (side d st))(fst e \<mapsto> dv + snd e),
            fringe := heappush (fringe (side d st)) (dv + snd e, counter st, fst e),
            paths := (paths (side d st))(fst e \<mapsto> pv @ [fst e])\<rparr> \<and>
       side (\<not> d) st' = side (\<not> d) st \<and> counter st' = Suc (counter st))"
proof -
  let ?s = "side d st"
  from assms obtain dv where dv: "dists ?s v = Some dv"
    by (cases "dists ?s v") (simp_all add: relax_edge_def Let_def)
  show ?thesis
  proof (cases "dists ?s (fst e)")
    case (Some dw)
    with assms dv have "st' = st"
      by (cases "dv + snd e < dw") (simp_all add: relax_edge_def Let_def)
    then show ?thesis by simp
  next
    case None
    show ?thesis
    proof (cases "case seen ?s (fst e) of None \<Rightarrow> True | Some sw \<Rightarrow> dv + snd e < sw")
      case False
      with assms dv None have "st' = st"
        by (simp add: relax_edge_def Let_def)
      then show ?thesis by simp
    next
      case True
      with assms dv None obtain pv where pv: "paths ?s v = Some pv"
        by (cases "paths ?s v") (simp_all add: relax_edge_def Let_def)
      let ?p = "(set_side d
               (?s\<lparr>seen := (seen ?s)(fst e \<mapsto> dv + snd e),
                  fringe := heappush (fringe ?s) (dv + snd e, counter st, fst e),
                  paths := (paths ?s)(fst e \<mapsto> pv @ [fst e])\<rparr>) st)
             \<lparr>counter := Suc (counter st)\<rparr>"
      from assms dv None True pv have "meet (fst e) ?p = Inr st'"
        by (simp add: relax_edge_def Let_def)
      then have f: "forward st' = forward ?p" "backward st' = backward ?p"
        "counter st' = counter ?p"
        by (simp_all add: meet_frame)
      have "\<And>d'. side d' st' = side d' ?p"
        using f(1,2) by (rule side_cong)
      then have "side d st' = side d ?p" "side (\<not> d) st' = side (\<not> d) ?p"
        by simp_all
      moreover have "\<forall>sw. seen ?s (fst e) = Some sw \<longrightarrow> dv + snd e < sw"
        using True by (auto split: option.splits)
      ultimately show ?thesis
        using dv pv None f(3) by simp
    qed
  qed
qed

lemma relax_edge_counters:
  assumes "relax_edge d v e st = Inr st'" and "counters_ok st"
  shows "counters_ok st'"
proof -
  from relax_edge_frame [OF assms(1)] show ?thesis
  proof (elim disjE exE conjE)
    assume "\<forall>d'. side d' st' = side d' st" "counter st' = counter st"
    then show ?thesis using assms(2) by (simp add: counters_ok_def)
  next
    fix dv pv
    assume s: "side d st' =
         (side d st)\<lparr>seen := (seen (side d st))(fst e \<mapsto> dv + snd e),
            fringe := heappush (fringe (side d st)) (dv + snd e, counter st, fst e),
            paths := (paths (side d st))(fst e \<mapsto> pv @ [fst e])\<rparr>"
      and o: "side (\<not> d) st' = side (\<not> d) st" and c: "counter st' = Suc (counter st)"
    have "heap_ok (counter st') (fringe (side d' st'))" for d'
    proof (cases "d' = d")
      case True
      then show ?thesis
        using assms(2) s c by (simp add: counters_ok_def heappush_heap_ok)
    next
      case False
      then have "d' = (\<not> d)" by simp
      then show ?thesis
        using assms(2) o c by (simp add: counters_ok_def heap_ok_Suc)
    qed
    then show ?thesis by (simp add: counters_ok_def)
  qed
qed

lemma relax_counters:
  "relax d v es st = Inr st' \<Longrightarrow> counters_ok st \<Longrightarrow> counters_ok st'"
proof (induction es arbitrary: st)
  case Nil
  then show ?case by simp
next
  case (Cons e es)
  from Cons.prems(1) obtain st1 where 1: "relax_edge d v e st = Inr st1"
    and 2: "relax d v es st1 = Inr st'"
    by (cases "relax_edge d v e st") simp_all
  from 1 Cons.prems(2) have "counters_ok st1" by (rule relax_edge_counters)
  with 2 show ?case by (rule Cons.IH)
qed

lemma bidi_step_node_lt:
  assumes "counters_ok st"
  shows "bidi_step node_lt G st = bidi_step node_lt' G st"
proof -
  have "heap_ok (counter st) (fringe (side (\<not> dir st) st))"
    using assms by (simp add: counters_ok_def)
  then have "heappop node_lt (fringe (side (\<not> dir st) st)) =
      heappop node_lt' (fringe (side (\<not> dir st) st))"
    by (rule heappop_node_lt)
  then show ?thesis
    by (simp add: bidi_step_def Let_def)
qed

lemma bidi_step_counters:
  assumes "bidi_step node_lt G st = Inr st'" and "counters_ok st"
  shows "counters_ok st'"
proof -
  let ?d = "\<not> dir st"
  let ?s = "side ?d st"
  from assms(1) obtain m h where pop: "heappop node_lt (fringe ?s) = Some (m, h)"
    by (cases "heappop node_lt (fringe ?s)") (auto simp: bidi_step_def Let_def)
  let ?st1 = "set_side ?d (?s\<lparr>fringe := h\<rparr>) (st\<lparr>dir := ?d\<rparr>)"
  let ?v = "snd (snd m)"
  have h: "heap_ok (counter st) h"
    using assms(2) pop by (auto simp: counters_ok_def intro: heappop_heap_ok)
  have ok1: "counters_ok ?st1"
    using assms(2) h by (simp add: counters_ok_def)
  show ?thesis
  proof (cases "dists ?s ?v")
    case (Some a)
    with assms(1) pop have "st' = ?st1"
      by (simp add: bidi_step_def Let_def)
    with ok1 show ?thesis by simp
  next
    case None
    let ?st2 = "set_side ?d ((side ?d ?st1)\<lparr>dists := (dists ?s)(?v \<mapsto> fst m)\<rparr>) ?st1"
    have ok2: "counters_ok ?st2"
      using assms(2) h by (simp add: counters_ok_def)
    from assms(1) pop None obtain nbrs where "relax ?d ?v nbrs ?st2 = Inr st'"
      by (auto simp: bidi_step_def Let_def split: if_splits option.splits sum.splits)
    then show ?thesis using ok2 by (rule relax_counters)
  qed
qed

declare bidi_loop.simps [simp del] uni_loop.simps [simp del]

lemma bidi_loop_node_lt:
  "counters_ok st \<Longrightarrow> bidi_loop node_lt G st = bidi_loop node_lt' G st"
proof (induction node_lt G st rule: bidi_loop.induct)
  case (1 node_lt G st)
  show ?case
  proof (cases "fringe (forward st) \<noteq> [] \<and> fringe (backward st) \<noteq> []")
    case False
    then show ?thesis
      by (auto simp: bidi_loop.simps [of node_lt G st] bidi_loop.simps [of node_lt' G st])
  next
    case True
    have l: "bidi_loop node_lt G st =
        (case bidi_step node_lt G st of Inl r \<Rightarrow> r | Inr st' \<Rightarrow> bidi_loop node_lt G st')"
      using True by (simp add: bidi_loop.simps [of node_lt G st])
    have r: "bidi_loop node_lt' G st =
        (case bidi_step node_lt' G st of Inl r \<Rightarrow> r | Inr st' \<Rightarrow> bidi_loop node_lt' G st')"
      using True by (simp add: bidi_loop.simps [of node_lt' G st])
    have eq: "bidi_step node_lt' G st = bidi_step node_lt G st"
      using "1.prems" by (rule bidi_step_node_lt)
    show ?thesis
    proof (cases "bidi_step node_lt G st")
      case (Inl res)
      then show ?thesis by (simp add: l r eq)
    next
      case (Inr st1)
      then have "counters_ok st1" using "1.prems" by (rule bidi_step_counters)
      then have "bidi_loop node_lt G st1 = bidi_loop node_lt' G st1"
        using True Inr by (intro "1.IH") simp_all
      then show ?thesis by (simp add: l r eq Inr)
    qed
  qed
qed

lemma counters_ok_bidi_init: "counters_ok (bidi_init source target)"
  by (simp add: counters_ok_def bidi_init_def side_def heap_ok_def heappush_def count_of_def)

lemma bidirectional_dijkstra_node_lt:
  "bidirectional_dijkstra node_lt G source target = bidirectional_dijkstra node_lt' G source target"
  using bidi_loop_node_lt [OF counters_ok_bidi_init, of node_lt G source target node_lt']
  by (simp add: bidirectional_dijkstra_def)

lemma uni_relax_edge_heap_ok:
  assumes "uni_relax_edge v e st = Inr st'" and "heap_ok (u_counter st) (u_fringe st)"
  shows "heap_ok (u_counter st') (u_fringe st')"
proof -
  from assms(1) consider "st' = st"
    | dv where "st' = st\<lparr>u_seen := (u_seen st)(fst e \<mapsto> dv + snd e),
        u_fringe := heappush (u_fringe st) (dv + snd e, u_counter st, fst e),
        u_counter := Suc (u_counter st)\<rparr>"
    by (auto simp: uni_relax_edge_def Let_def split: option.splits if_splits)
  then show ?thesis
    using assms(2) by cases (simp_all add: heappush_heap_ok)
qed

lemma uni_relax_heap_ok:
  "uni_relax v es st = Inr st' \<Longrightarrow> heap_ok (u_counter st) (u_fringe st) \<Longrightarrow>
   heap_ok (u_counter st') (u_fringe st')"
proof (induction es arbitrary: st)
  case Nil
  then show ?case by simp
next
  case (Cons e es)
  from Cons.prems(1) obtain st1 where 1: "uni_relax_edge v e st = Inr st1"
    and 2: "uni_relax v es st1 = Inr st'"
    by (cases "uni_relax_edge v e st") simp_all
  from 1 Cons.prems(2) have "heap_ok (u_counter st1) (u_fringe st1)"
    by (rule uni_relax_edge_heap_ok)
  with 2 show ?case by (rule Cons.IH)
qed

lemma uni_step_node_lt:
  assumes "heap_ok (u_counter st) (u_fringe st)"
  shows "uni_step node_lt G target st = uni_step node_lt' G target st"
proof -
  have "heappop node_lt (u_fringe st) = heappop node_lt' (u_fringe st)"
    using assms by (rule heappop_node_lt)
  then show ?thesis
    by (simp add: uni_step_def)
qed

lemma uni_step_heap_ok:
  assumes "uni_step node_lt G target st = Inr st'" and "heap_ok (u_counter st) (u_fringe st)"
  shows "heap_ok (u_counter st') (u_fringe st')"
proof -
  from assms(1) obtain m h where pop: "heappop node_lt (u_fringe st) = Some (m, h)"
    by (cases "heappop node_lt (u_fringe st)") (auto simp: uni_step_def)
  let ?v = "snd (snd m)"
  have h: "heap_ok (u_counter st) h"
    using assms(2) pop by (rule heappop_heap_ok)
  show ?thesis
  proof (cases "u_dist st ?v")
    case (Some a)
    with assms(1) pop have "st' = st\<lparr>u_fringe := h\<rparr>"
      by (simp add: uni_step_def Let_def)
    with h show ?thesis by simp
  next
    case None
    let ?st2 = "st\<lparr>u_fringe := h, u_dist := (u_dist st)(?v \<mapsto> fst m)\<rparr>"
    from assms(1) pop None obtain nbrs where "uni_relax ?v nbrs ?st2 = Inr st'"
      by (auto simp: uni_step_def Let_def split: if_splits option.splits sum.splits)
    then show ?thesis
      using h by (intro uni_relax_heap_ok [of ?v nbrs ?st2 st']) simp_all
  qed
qed

lemma uni_loop_node_lt:
  "heap_ok (u_counter st) (u_fringe st) \<Longrightarrow>
   uni_loop node_lt G target st = uni_loop node_lt' G target st"
proof (induction node_lt G target st rule: uni_loop.induct)
  case (1 node_lt G target st)
  show ?case
  proof (cases "u_fringe st \<noteq> []")
    case False
    then show ?thesis
      by (simp add: uni_loop.simps [of node_lt G target st]
          uni_loop.simps [of node_lt' G target st])
  next
    case True
    have l: "uni_loop node_lt G target st =
        (case uni_step node_lt G target st of
           Inl r \<Rightarrow> r | Inr st' \<Rightarrow> uni_loop node_lt G target st')"
      using True by (simp add: uni_loop.simps [of node_lt G target st])
    have r: "uni_loop node_lt' G target st =
        (case uni_step node_lt' G target st of
           Inl r \<Rightarrow> r | Inr st' \<Rightarrow> uni_loop node_lt' G target st')"
      using True by (simp add: uni_loop.simps [of node_lt' G target st])
    have eq: "uni_step node_lt' G target st = uni_step node_lt G target st"
      using "1.prems" by (rule uni_step_node_lt)
    show ?thesis
    proof (cases "uni_step node_lt G target st")
      case (Inl res)
      then show ?thesis by (simp add: l r eq)
    next
      case (Inr st1)
      then have "heap_ok (u_counter st1) (u_fringe st1)"
        using "1.prems" by (rule uni_step_heap_ok)
      then have "uni_loop node_lt G target st1 = uni_loop node_lt' G target st1"
        using True Inr by (intro "1.IH") simp_all
      then show ?thesis by (simp add: l r eq Inr)
    qed
  qed
qed

lemma dijkstra_path_length_node_lt:
  "dijkstra_path_length node_lt G source target = dijkstra_path_length node_lt' G source target"
proof -
  have "heap_ok (u_counter (uni_init source :: 'a uni)) (u_fringe (uni_init source :: 'a uni))"
    by (simp add: uni_init_def heap_ok_def heappush_def count_of_def)
  then have "uni_loop node_lt G target (uni_init source) =
      uni_loop node_lt' G target (uni_init source)"
    by (rule uni_loop_node_lt)
  then show ?thesis
    by (simp add: dijkstra_path_length_def)
qed

text \<open>
  Claim C7. The result of \<open>find_shortest_path\<close> is a function of the graph (with the
  insertion order of its nodes and neighbours) and the two names alone: it does not depend
  on how node names compare. Two heap entries never carry the same counter, so an entry
  of least distance is singled out by its counter, the order of discovery, and the
  comparison of tuples never reaches the names. This holds for every graph, with or
  without several paths of least weight.
\<close>

theorem find_shortest_path_ties:
  "find_shortest_path node_lt G start end = find_shortest_path node_lt' G start end"
proof -
  have p: "shortest_path node_lt G start end = shortest_path node_lt' G start end"
    unfolding shortest_path_def
    by (simp only: bidirectional_dijkstra_node_lt [of node_lt G start "end" node_lt'])
  have l: "shortest_path_length node_lt G start end = shortest_path_length node_lt' G start end"
    unfolding shortest_path_length_def
    by (rule dijkstra_path_length_node_lt)
  show ?thesis
    unfolding find_shortest_path_def by (simp only: p l)
qed

lemma find_shortest_path_diamond:
  "find_shortest_path (\<lambda>a b. False) diamond ''A'' ''D'' = Inr ([''A'', ''B'', ''D''], Finite 2)"
  by code_simp

section \<open>The search between two components\<close>

lemma entry_lt_fst:
  "entry_lt node_lt a b \<Longrightarrow> fst a \<le> fst b"
  "\<not> entry_lt node_lt a b \<Longrightarrow> fst b \<le> fst a"
  by (auto simp: entry_lt_def split: if_splits)

lemma heap_least_le: "\<forall>e \<in> set (m # es). fst (heap_least node_lt m es) \<le> fst e"
proof (induction es arbitrary: m)
  case Nil
  then show ?case by simp
next
  case (Cons e es)
  let ?m = "if entry_lt node_lt e m then e else m"
  have ih: "\<forall>x \<in> set (?m # es). fst (heap_least node_lt ?m es) \<le> fst x"
    by (rule Cons.IH)
  have "fst ?m \<le> fst m" "fst ?m \<le> fst e"
    using entry_lt_fst [of node_lt e m] by auto
  moreover have "fst (heap_least node_lt ?m es) \<le> fst ?m"
    using ih by simp
  ultimately have "fst (heap_least node_lt ?m es) \<le> fst m"
    "fst (heap_least node_lt ?m es) \<le> fst e"
    by (auto intro: order_trans)
  then show ?case using ih by simp
qed

lemma heappop_le:
  assumes "heappop node_lt h = Some (m, h')"
  shows "\<forall>e \<in> set h. fst m \<le> fst e"
proof -
  from assms obtain e es where h: "h = e # es" by (cases h) (auto simp: heappop_def)
  with assms have "m = heap_least node_lt e es" by (auto simp: heappop_def Let_def)
  then show ?thesis using heap_least_le [of e es node_lt] h by simp
qed

lemma heappop_nonempty: "h \<noteq> [] \<Longrightarrow> heappop node_lt h \<noteq> None"
  by (cases h) (simp_all add: heappop_def Let_def)

lemma meet_None: "seen (side d st) w = None \<Longrightarrow> meet w st = Inr st"
  by (cases d) (auto simp: meet_def side_def split: option.splits)

lemma neighbour_edge:
  assumes "map_of G v = Some nbrs" and "(w, c) \<in> set nbrs"
  shows "(v, w) \<in> edge_rel G"
proof -
  from assms(2) have "map_of nbrs w \<noteq> None"
    by (metis map_of_eq_None_iff fst_conv image_eqI)
  with assms(1) show ?thesis
    by (simp add: edge_rel_def has_edge_def dict_has_def)
qed

lemma relax_edge_ok:
  assumes inv: "side_inv G r (side d st)"
    and dv: "dists (side d st) v = Some dv"
    and top: "\<forall>n dx. dists (side d st) n = Some dx \<longrightarrow> dx \<le> dv"
    and edge: "(v, fst e) \<in> edge_rel G"
    and wt: "\<forall>a. a \<le> a + snd e"
    and sep: "\<forall>n. (r, n) \<in> (edge_rel G)\<^sup>* \<longrightarrow> seen (side (\<not> d) st) n = None"
  shows "\<exists>st'. relax_edge d v e st = Inr st' \<and> side_inv G r (side d st') \<and>
    side (\<not> d) st' = side (\<not> d) st \<and> dists (side d st') = dists (side d st)"
proof -
  let ?s = "side d st"
  let ?w = "fst e"
  let ?len = "dv + snd e"
  have le: "dv \<le> ?len" using wt by simp
  have v_seen: "seen ?s v \<noteq> None"
    using inv dv by (simp add: side_inv_def)
  then have v_path: "paths ?s v \<noteq> None" and v_reach: "(r, v) \<in> (edge_rel G)\<^sup>*"
    using inv by (simp_all add: side_inv_def)
  have w_reach: "(r, ?w) \<in> (edge_rel G)\<^sup>*"
    using v_reach edge by (rule rtrancl_into_rtrancl)
  show ?thesis
  proof (cases "dists ?s ?w")
    case (Some dw)
    then have "dw \<le> dv" using top by simp
    then have "\<not> ?len < dw" using le by simp
    then have "relax_edge d v e st = Inr st"
      using dv Some by (simp add: relax_edge_def Let_def)
    then show ?thesis using inv by simp
  next
    case None
    show ?thesis
    proof (cases "case seen ?s ?w of None \<Rightarrow> True | Some sw \<Rightarrow> ?len < sw")
      case False
      then have "relax_edge d v e st = Inr st"
        using dv None by (simp add: relax_edge_def Let_def)
      then show ?thesis using inv by simp
    next
      case True
      from v_path obtain pv where pv: "paths ?s v = Some pv" by auto
      let ?s' = "?s\<lparr>seen := (seen ?s)(?w \<mapsto> ?len),
                  fringe := heappush (fringe ?s) (?len, counter st, ?w),
                  paths := (paths ?s)(?w \<mapsto> pv @ [?w])\<rparr>"
      let ?p = "(set_side d ?s' st)\<lparr>counter := Suc (counter st)\<rparr>"
      have "seen (side (\<not> d) ?p) ?w = None"
        using sep w_reach by simp
      then have "meet ?w ?p = Inr ?p" by (rule meet_None)
      then have res: "relax_edge d v e st = Inr ?p"
        using dv None True pv by (simp add: relax_edge_def Let_def)
      have dle: "\<And>n dx. dists ?s n = Some dx \<Longrightarrow> dx \<le> ?len"
        using top le by (blast intro: order_trans)
      have "side_inv G r ?s'"
        unfolding side_inv_def
      proof (intro conjI)
        show "\<forall>e \<in> set (fringe ?s'). seen ?s' (snd (snd e)) \<noteq> None"
          using inv by (auto simp: side_inv_def heappush_def)
        show "\<forall>n. dists ?s' n \<noteq> None \<longrightarrow> seen ?s' n \<noteq> None"
          using inv by (auto simp: side_inv_def)
        show "\<forall>n. seen ?s' n \<noteq> None \<longrightarrow>
            paths ?s' n \<noteq> None \<and> (r, n) \<in> (edge_rel G)\<^sup>*"
          using inv w_reach by (auto simp: side_inv_def)
        show "\<forall>n dx. dists ?s' n = Some dx \<longrightarrow> (\<forall>e \<in> set (fringe ?s'). dx \<le> fst e)"
          using inv dle by (auto simp: side_inv_def heappush_def)
      qed
      then show ?thesis using res by simp
    qed
  qed
qed

lemma relax_ok:
  assumes "side_inv G r (side d st)"
    and "dists (side d st) v = Some dv"
    and "\<forall>n dx. dists (side d st) n = Some dx \<longrightarrow> dx \<le> dv"
    and "\<forall>e \<in> set es. (v, fst e) \<in> edge_rel G \<and> (\<forall>a. a \<le> a + snd e)"
    and "\<forall>n. (r, n) \<in> (edge_rel G)\<^sup>* \<longrightarrow> seen (side (\<not> d) st) n = None"
  shows "\<exists>st'. relax d v es st = Inr st' \<and> side_inv G r (side d st') \<and>
    side (\<not> d) st' = side (\<not> d) st"
  using assms
proof (induction es arbitrary: st)
  case Nil
  then show ?case by simp
next
  case (Cons e es)
  have "\<exists>st1. relax_edge d v e st = Inr st1 \<and> side_inv G r (side d st1) \<and>
      side (\<not> d) st1 = side (\<not> d) st \<and> dists (side d st1) = dists (side d st)"
    using Cons.prems by (intro relax_edge_ok) simp_all
  then obtain st1 where 1: "relax_edge d v e st = Inr st1" "side_inv G r (side d st1)"
    "side (\<not> d) st1 = side (\<not> d) st" "dists (side d st1) = dists (side d st)"
    by blast
  have "\<exists>st'. relax d v es st1 = Inr st' \<and> side_inv G r (side d st') \<and>
      side (\<not> d) st' = side (\<not> d) st1"
    using 1 Cons.prems by (intro Cons.IH) simp_all
  then show ?case using 1 by auto
qed

lemma search_inv_side:
  "search_inv G source target st =
     (\<forall>d. side_inv G (if d then target else source) (side d st))"
  by (auto simp: search_inv_def side_def)

lemma bidi_step_ok:
  assumes inv: "search_inv G source target st"
    and ne: "fringe (forward st) \<noteq> []" "fringe (backward st) \<noteq> []"
    and nodes: "has_node G source" "has_node G target" "neighbours_are_nodes G"
    and wt: "weights_ok G"
    and sep: "\<forall>n. \<not> ((source, n) \<in> (edge_rel G)\<^sup>* \<and> (target, n) \<in> (edge_rel G)\<^sup>*)"
  shows "\<exists>st'. bidi_step node_lt G st = Inr st' \<and> search_inv G source target st'"
proof -
  let ?d = "\<not> dir st"
  let ?r = "if ?d then target else source"
  let ?r' = "if ?d then source else target"
  let ?s = "side ?d st"
  let ?o = "side (\<not> ?d) st"
  have all: "\<And>d. side_inv G (if d then target else source) (side d st)"
    using inv by (simp add: search_inv_side)
  have si: "side_inv G ?r ?s"
    by (rule all)
  have oi: "side_inv G ?r' ?o"
    using all [of "dir st"] by (cases "dir st") simp_all
  have "fringe ?s \<noteq> []" using ne by (simp add: side_def)
  then obtain m h where pop: "heappop node_lt (fringe ?s) = Some (m, h)"
    using heappop_nonempty [of "fringe ?s" node_lt] by auto
  then have m: "m \<in> set (fringe ?s)" and h: "h = remove1 m (fringe ?s)"
    and least: "\<forall>e \<in> set (fringe ?s). fst m \<le> fst e"
    by (simp_all add: heappop_Some heappop_le)
  have hsub: "set h \<subseteq> set (fringe ?s)" unfolding h by (rule set_remove1_subset)
  let ?v = "snd (snd m)"
  let ?s1 = "?s\<lparr>fringe := h\<rparr>"
  let ?st1 = "set_side ?d ?s1 (st\<lparr>dir := ?d\<rparr>)"
  have s1: "side_inv G ?r ?s1"
    unfolding side_inv_def
  proof (intro conjI)
    show "\<forall>e \<in> set (fringe ?s1). seen ?s1 (snd (snd e)) \<noteq> None"
      using si hsub by (auto simp: side_inv_def)
    show "\<forall>n. dists ?s1 n \<noteq> None \<longrightarrow> seen ?s1 n \<noteq> None"
      using si by (simp add: side_inv_def)
    show "\<forall>n. seen ?s1 n \<noteq> None \<longrightarrow> paths ?s1 n \<noteq> None \<and> (?r, n) \<in> (edge_rel G)\<^sup>*"
      using si by (simp add: side_inv_def)
    show "\<forall>n dx. dists ?s1 n = Some dx \<longrightarrow> (\<forall>e \<in> set (fringe ?s1). dx \<le> fst e)"
      using si hsub by (simp add: side_inv_def) blast
  qed
  have reach_closed: "\<And>r n. has_node G r \<Longrightarrow> (r, n) \<in> (edge_rel G)\<^sup>* \<Longrightarrow> has_node G n"
  proof -
    fix r n
    assume "has_node G r" and "(r, n) \<in> (edge_rel G)\<^sup>*"
    from this(2,1) show "has_node G n"
      using nodes(3)
      by (induction rule: rtrancl_induct) (auto simp: edge_rel_def neighbours_are_nodes_def)
  qed
  have sepo: "\<forall>n. (?r, n) \<in> (edge_rel G)\<^sup>* \<longrightarrow> seen ?o n = None"
  proof (intro allI impI)
    fix n
    assume "(?r, n) \<in> (edge_rel G)\<^sup>*"
    then have "(?r', n) \<notin> (edge_rel G)\<^sup>*" using sep by auto
    then show "seen ?o n = None" using oi by (auto simp: side_inv_def)
  qed
  show ?thesis
  proof (cases "dists ?s ?v")
    case (Some a)
    then have "bidi_step node_lt G st = Inr ?st1"
      using pop by (simp add: bidi_step_def Let_def)
    moreover have "search_inv G source target ?st1"
      unfolding search_inv_side using s1 oi by auto
    ultimately show ?thesis by blast
  next
    case None
    let ?s2 = "?s1\<lparr>dists := (dists ?s)(?v \<mapsto> fst m)\<rparr>"
    let ?st2 = "set_side ?d ((side ?d ?st1)\<lparr>dists := (dists ?s)(?v \<mapsto> fst m)\<rparr>) ?st1"
    have side2: "side ?d ?st2 = ?s2" "side (\<not> ?d) ?st2 = ?o" by simp_all
    have v_seen: "seen ?s ?v \<noteq> None" using si m by (auto simp: side_inv_def)
    then have v_reach: "(?r, ?v) \<in> (edge_rel G)\<^sup>*" using si by (simp add: side_inv_def)
    have top: "\<forall>n dx. dists ?s2 n = Some dx \<longrightarrow> dx \<le> fst m"
      using si m by (auto simp: side_inv_def)
    have s2: "side_inv G ?r ?s2"
      unfolding side_inv_def
    proof (intro conjI)
      show "\<forall>e \<in> set (fringe ?s2). seen ?s2 (snd (snd e)) \<noteq> None"
        using s1 by (auto simp: side_inv_def)
      show "\<forall>n. dists ?s2 n \<noteq> None \<longrightarrow> seen ?s2 n \<noteq> None"
        using s1 v_seen by (auto simp: side_inv_def)
      show "\<forall>n. seen ?s2 n \<noteq> None \<longrightarrow> paths ?s2 n \<noteq> None \<and> (?r, n) \<in> (edge_rel G)\<^sup>*"
        using s1 by (auto simp: side_inv_def)
      show "\<forall>n dx. dists ?s2 n = Some dx \<longrightarrow> (\<forall>e \<in> set (fringe ?s2). dx \<le> fst e)"
        using s1 least hsub by (auto simp: side_inv_def)
    qed
    have other: "dists ?o ?v = None"
    proof (rule ccontr)
      assume "dists ?o ?v \<noteq> None"
      then have "seen ?o ?v \<noteq> None" using oi by (simp add: side_inv_def)
      then have "(?r', ?v) \<in> (edge_rel G)\<^sup>*" using oi by (simp add: side_inv_def)
      with v_reach sep show False by (cases "dir st") auto
    qed
    have "has_node G ?r" using nodes by simp
    then have "has_node G ?v" using v_reach by (rule reach_closed)
    then obtain nbrs where nbrs: "map_of G ?v = Some nbrs"
      by (auto simp: has_node_def dict_has_def)
    have edges: "\<forall>e \<in> set nbrs. (?v, fst e) \<in> edge_rel G \<and> (\<forall>a. a \<le> a + snd e)"
    proof
      fix e
      assume e: "e \<in> set nbrs"
      then have "(fst e, snd e) \<in> set nbrs" by simp
      then show "(?v, fst e) \<in> edge_rel G \<and> (\<forall>a. a \<le> a + snd e)"
        using nbrs wt neighbour_edge [OF nbrs, of "fst e" "snd e"]
        unfolding weights_ok_def by blast
    qed
    have "\<exists>st'. relax ?d ?v nbrs ?st2 = Inr st' \<and> side_inv G ?r (side ?d st') \<and>
        side (\<not> ?d) st' = side (\<not> ?d) ?st2"
    proof (rule relax_ok [where dv = "fst m"])
      show "side_inv G ?r (side ?d ?st2)" using s2 by (simp only: side2)
      show "dists (side ?d ?st2) ?v = Some (fst m)" by simp
      show "\<forall>n dx. dists (side ?d ?st2) n = Some dx \<longrightarrow> dx \<le> fst m"
        using top by (simp only: side2)
      show "\<forall>e \<in> set nbrs. (?v, fst e) \<in> edge_rel G \<and> (\<forall>a. a \<le> a + snd e)"
        by (rule edges)
      show "\<forall>n. (?r, n) \<in> (edge_rel G)\<^sup>* \<longrightarrow> seen (side (\<not> ?d) ?st2) n = None"
        using sepo by (simp only: side2)
    qed
    then obtain st' where r: "relax ?d ?v nbrs ?st2 = Inr st'"
      "side_inv G ?r (side ?d st')" "side (\<not> ?d) st' = ?o"
      by (auto simp only: side2)
    have "dists (side (\<not> ?d) ?st2) ?v = None" using other by (simp only: side2)
    then have "bidi_step node_lt G st = Inr st'"
      using pop None nbrs r(1) by (simp add: bidi_step_def Let_def)
    moreover have "search_inv G source target st'"
      unfolding search_inv_side
    proof
      fix d'
      show "side_inv G (if d' then target else source) (side d' st')"
        using r(2,3) oi by (cases "d' = ?d") auto
    qed
    ultimately show ?thesis by blast
  qed
qed

lemma bidi_loop_no_path:
  "search_inv G source target st \<Longrightarrow>
   has_node G source \<Longrightarrow> has_node G target \<Longrightarrow> neighbours_are_nodes G \<Longrightarrow> weights_ok G \<Longrightarrow>
   \<forall>n. \<not> ((source, n) \<in> (edge_rel G)\<^sup>* \<and> (target, n) \<in> (edge_rel G)\<^sup>*) \<Longrightarrow>
   bidi_loop node_lt G st = Inl NetworkXNoPath"
proof (induction node_lt G st rule: bidi_loop.induct)
  case (1 node_lt G st)
  show ?case
  proof (cases "fringe (forward st) \<noteq> [] \<and> fringe (backward st) \<noteq> []")
    case False
    then show ?thesis by (auto simp: bidi_loop.simps [of node_lt G st])
  next
    case True
    then have "\<exists>st'. bidi_step node_lt G st = Inr st' \<and> search_inv G source target st'"
      using "1.prems" by (intro bidi_step_ok) simp_all
    then obtain st' where s: "bidi_step node_lt G st = Inr st'"
      and i: "search_inv G source target st'"
      by blast
    have "bidi_loop node_lt G st' = Inl NetworkXNoPath"
      using True s i "1.prems" by (intro "1.IH") simp_all
    then show ?thesis
      using True s by (simp add: bidi_loop.simps [of node_lt G st])
  qed
qed

lemma search_inv_bidi_init: "search_inv G source target (bidi_init source target)"
  by (auto simp: search_inv_def side_inv_def bidi_init_def heappush_def)

lemma separated:
  assumes "(source, target) \<notin> (edge_rel G \<union> (edge_rel G)\<inverse>)\<^sup>*"
  shows "\<not> ((source, n) \<in> (edge_rel G)\<^sup>* \<and> (target, n) \<in> (edge_rel G)\<^sup>*)"
proof
  let ?R = "edge_rel G"
  assume a: "(source, n) \<in> ?R\<^sup>* \<and> (target, n) \<in> ?R\<^sup>*"
  then have "(source, n) \<in> (?R \<union> ?R\<inverse>)\<^sup>*"
    by (meson rtrancl_mono subsetD sup_ge1)
  moreover have "(n, target) \<in> (?R\<inverse>)\<^sup>*"
    using a by (simp add: rtrancl_converse)
  then have "(n, target) \<in> (?R \<union> ?R\<inverse>)\<^sup>*"
    by (meson rtrancl_mono subsetD sup_ge2)
  ultimately have "(source, target) \<in> (?R \<union> ?R\<inverse>)\<^sup>*" by (rule rtrancl_trans)
  with assms show False by simp
qed

lemma islands_edges: "edge_rel islands = {(''A'', ''B''), (''B'', ''A'')}"
  by (auto simp: edge_rel_def islands_def has_edge_def dict_has_def split: if_splits)

lemma islands_apart: "(''A'', ''C'') \<notin> (edge_rel islands \<union> (edge_rel islands)\<inverse>)\<^sup>*"
proof
  assume "(''A'', ''C'') \<in> (edge_rel islands \<union> (edge_rel islands)\<inverse>)\<^sup>*"
  then have "''C'' \<in> {''A'', ''B''}"
    by (induction rule: rtrancl_induct) (auto simp: islands_edges)
  then show False by simp
qed

lemma build_neighbours_are_nodes:
  assumes "build_flight_graph haversine coordinates connections = Inr G"
  shows "neighbours_are_nodes G"
  unfolding neighbours_are_nodes_def
  by (simp add: build_flight_graph_edges(2,3) [OF assms])

text \<open>
  Claim C3. In a graph whose neighbours are nodes and whose weights are not negative, for
  two nodes \<open>start\<close> and \<open>end\<close> that no chain of edges joins, \<open>find_shortest_path\<close>
  returns normally, with the empty path and the distance \<^verbatim>\<open>float('inf')\<close>: the search of
  networkx ends with \<^verbatim>\<open>NetworkXNoPath\<close>, without any other exception, and the script
  turns that into the value.
\<close>

theorem find_shortest_path_disconnected:
  assumes "neighbours_are_nodes G" and "weights_ok G"
    and "has_node G start" and "has_node G end"
    and "(start, end) \<notin> (edge_rel G \<union> (edge_rel G)\<inverse>)\<^sup>*"
  shows "find_shortest_path node_lt G start end = Inr ([], PosInf)"
proof -
  have ne: "start \<noteq> end" using assms(5) by auto
  have "bidi_loop node_lt G (bidi_init start end) = Inl NetworkXNoPath"
    using search_inv_bidi_init assms(3,4,1,2) separated [OF assms(5)]
    by (intro bidi_loop_no_path) blast+
  then have "bidirectional_dijkstra node_lt G start end = Inl NetworkXNoPath"
    using assms(3,4) ne by (simp add: bidirectional_dijkstra_def)
  then show ?thesis
    by (simp add: find_shortest_path_def shortest_path_def)
qed

theorem find_shortest_path_disconnected_witness:
  "neighbours_are_nodes islands \<and> weights_ok islands \<and>
   has_node islands ''A'' \<and> has_node islands ''C'' \<and>
   (''A'', ''C'') \<notin> (edge_rel islands \<union> (edge_rel islands)\<inverse>)\<^sup>* \<and>
   find_shortest_path (\<lambda>a b. False) islands ''A'' ''C'' = Inr ([], PosInf)"
proof -
  have n: "neighbours_are_nodes islands"
    using islands_edges
    by (auto simp: neighbours_are_nodes_def edge_rel_def has_node_def dict_has_def islands_def)
  have w: "weights_ok islands" by (simp add: weights_ok_def)
  have a: "has_node islands ''A''" and c: "has_node islands ''C''"
    by (simp_all add: has_node_def dict_has_def islands_def)
  show ?thesis
    using n w a c islands_apart find_shortest_path_disconnected [OF n w a c islands_apart]
    by simp
qed

section \<open>The returned path\<close>

text \<open>
  In a graph with symmetric adjacency (as every \<^verbatim>\<open>networkx.Graph\<close> is), a path returned
  by \<open>find_shortest_path\<close> together with a weight is a walk from \<open>start\<close> to \<open>end\<close>:
  every consecutive pair of its names is an edge. This holds for every weight type; it
  says nothing about the weight returned with the path, which a second search computes.
\<close>

lemma is_walk_nonempty: "is_walk G p \<Longrightarrow> p \<noteq> []"
  by auto

lemma is_walk_snoc: "is_walk G p \<Longrightarrow> has_edge G (last p) w \<Longrightarrow> is_walk G (p @ [w])"
  by (induction G p rule: is_walk.induct) auto

lemma is_walk_append:
  "is_walk G p \<Longrightarrow> is_walk G q \<Longrightarrow> last p = hd q \<Longrightarrow> is_walk G (p @ tl q)"
proof (induction G p rule: is_walk.induct)
  case (1 G)
  then show ?case by simp
next
  case (2 G x)
  then show ?case by (cases q) auto
next
  case (3 G x y zs)
  then show ?case by auto
qed

lemma is_walk_rev: "symmetric G \<Longrightarrow> is_walk G p \<Longrightarrow> is_walk G (rev p)"
proof (induction G p rule: is_walk.induct)
  case (1 G)
  then show ?case by simp
next
  case (2 G x)
  then show ?case by simp
next
  case (3 G x y zs)
  then have "is_walk G (rev (y # zs))" by simp
  moreover have "has_edge G (last (rev (y # zs))) x"
    using 3 by (simp add: symmetric_def)
  ultimately have "is_walk G (rev (y # zs) @ [x])" by (rule is_walk_snoc)
  then show ?case by simp
qed

lemma last_append_tl: "q \<noteq> [] \<Longrightarrow> p \<noteq> [] \<Longrightarrow> last p = hd q \<Longrightarrow> last (p @ tl q) = last q"
  by (cases q) (auto simp: last_append)

lemma join_walks:
  assumes "symmetric G" and "walk_from_to G source w p0" and "walk_from_to G target w p1"
  shows "walk_from_to G source target (p0 @ tl (rev p1))"
proof -
  from assms have p0: "is_walk G p0" "hd p0 = source" "last p0 = w"
    and p1: "is_walk G p1" "hd p1 = target" "last p1 = w"
    by (simp_all add: walk_from_to_def)
  have ne: "p0 \<noteq> []" "p1 \<noteq> []" using p0(1) p1(1) by auto
  have r: "is_walk G (rev p1)" using assms(1) p1(1) by (rule is_walk_rev)
  have h: "hd (rev p1) = w" "last (rev p1) = target"
    using ne p1 by (simp_all add: hd_rev last_rev)
  have "is_walk G (p0 @ tl (rev p1))"
    using p0(1) r by (rule is_walk_append) (simp add: p0 h)
  moreover have "hd (p0 @ tl (rev p1)) = source" using ne p0 by simp
  moreover have "last (p0 @ tl (rev p1)) = target"
    using last_append_tl [of "rev p1" p0] ne p0 h by simp
  ultimately show ?thesis by (simp add: walk_from_to_def)
qed

lemma set_final_path:
  assumes "set_final w t st = Inr st'"
  shows "\<exists>p0 p1. paths (forward st) w = Some p0 \<and> paths (backward st) w = Some p1 \<and>
    finalpath st' = p0 @ tl (rev p1)"
  using assms
  by (cases "paths (forward st) w"; cases "paths (backward st) w") (auto simp: set_final_def)

lemma set_final_walk:
  assumes "set_final w t st = Inr st'" and "symmetric G"
    and "side_paths G source (forward st)" and "side_paths G target (backward st)"
  shows "walk_from_to G source target (finalpath st')"
proof -
  from set_final_path [OF assms(1)] obtain p0 p1 where
    p: "paths (forward st) w = Some p0" "paths (backward st) w = Some p1"
    "finalpath st' = p0 @ tl (rev p1)"
    by blast
  have "walk_from_to G source w p0" "walk_from_to G target w p1"
    using assms(3,4) p(1,2) by (simp_all add: side_paths_def)
  with assms(2) show ?thesis unfolding p(3) by (rule join_walks)
qed

lemma walk_nonempty: "walk_from_to G a b p \<Longrightarrow> p \<noteq> []"
  by (auto simp: walk_from_to_def)

lemma meet_cases:
  assumes "meet w st = Inr st'"
  shows "(st' = st \<and>
        (seen (forward st) w = None \<or> seen (backward st) w = None \<or> finalpath st \<noteq> [])) \<or>
      (\<exists>t. set_final w t st = Inr st')"
proof (cases "seen (forward st) w")
  case None
  with assms show ?thesis by (simp add: meet_def)
next
  case s0: (Some a0)
  show ?thesis
  proof (cases "seen (backward st) w")
    case None
    with assms s0 show ?thesis by (simp add: meet_def)
  next
    case s1: (Some a1)
    show ?thesis
    proof (cases "finalpath st = []")
      case True
      with assms s0 s1 have "set_final w (a0 + a1) st = Inr st'"
        by (simp add: meet_def Let_def)
      then show ?thesis by blast
    next
      case False
      show ?thesis
      proof (cases "finaldist st")
        case None
        with assms s0 s1 False show ?thesis by (simp add: meet_def Let_def)
      next
        case (Some fd)
        show ?thesis
        proof (cases "fd > a0 + a1")
          case True
          with assms s0 s1 False Some have "set_final w (a0 + a1) st = Inr st'"
            by (simp add: meet_def Let_def)
          then show ?thesis by blast
        next
          case f: False
          with assms s0 s1 False Some have "st' = st" by (simp add: meet_def Let_def)
          with False show ?thesis by simp
        qed
      qed
    qed
  qed
qed

lemma meet_walk_inv:
  assumes m: "meet w st = Inr st'" and sym: "symmetric G"
    and f: "side_paths G source (forward st)" and b: "side_paths G target (backward st)"
    and fp: "finalpath st = [] \<or> walk_from_to G source target (finalpath st)"
    and others: "\<forall>w'. w' \<noteq> w \<and> seen (forward st) w' \<noteq> None \<and> seen (backward st) w' \<noteq> None
        \<longrightarrow> finalpath st \<noteq> []"
  shows "walk_inv G source target st'"
proof -
  from meet_cases [OF m] show ?thesis
  proof (rule disjE)
    assume "st' = st \<and>
      (seen (forward st) w = None \<or> seen (backward st) w = None \<or> finalpath st \<noteq> [])"
    then have eq: "st' = st"
      and c: "seen (forward st) w = None \<or> seen (backward st) w = None \<or> finalpath st \<noteq> []"
      by simp_all
    have "seen (forward st) w' \<noteq> None \<and> seen (backward st) w' \<noteq> None
        \<longrightarrow> finalpath st \<noteq> []" for w'
    proof (cases "w' = w")
      case True
      then show ?thesis using c by auto
    next
      case False
      then show ?thesis using spec [OF others, of w'] by simp
    qed
    then show ?thesis
      unfolding walk_inv_def eq using f b fp by simp
  next
    assume "\<exists>t. set_final w t st = Inr st'"
    then obtain t where t: "set_final w t st = Inr st'" ..
    have frame: "forward st' = forward st" "backward st' = backward st"
      using set_final_frame [OF t] by simp_all
    have wf: "walk_from_to G source target (finalpath st')"
      using t sym f b by (rule set_final_walk)
    then have "finalpath st' \<noteq> []" by (rule walk_nonempty)
    then show ?thesis
      unfolding walk_inv_def frame using f b wf by simp
  qed
qed

lemma walk_inv_side:
  "walk_inv G source target st \<Longrightarrow> side_paths G (if d then target else source) (side d st)"
  by (simp add: walk_inv_def side_def)

lemma relax_edge_cases:
  assumes "relax_edge d v e st = Inr st'"
  shows "st' = st \<or>
    (\<exists>dv pv. dists (side d st) v = Some dv \<and> paths (side d st) v = Some pv \<and>
       meet (fst e)
         ((set_side d
            ((side d st)\<lparr>seen := (seen (side d st))(fst e \<mapsto> dv + snd e),
               fringe := heappush (fringe (side d st)) (dv + snd e, counter st, fst e),
               paths := (paths (side d st))(fst e \<mapsto> pv @ [fst e])\<rparr>) st)
          \<lparr>counter := Suc (counter st)\<rparr>) = Inr st')"
proof -
  let ?s = "side d st"
  from assms obtain dv where dv: "dists ?s v = Some dv"
    by (cases "dists ?s v") (simp_all add: relax_edge_def Let_def)
  show ?thesis
  proof (cases "dists ?s (fst e)")
    case (Some dw)
    with assms dv have "st' = st"
      by (cases "dv + snd e < dw") (simp_all add: relax_edge_def Let_def)
    then show ?thesis by simp
  next
    case None
    show ?thesis
    proof (cases "case seen ?s (fst e) of None \<Rightarrow> True | Some sw \<Rightarrow> dv + snd e < sw")
      case False
      with assms dv None have "st' = st"
        by (simp add: relax_edge_def Let_def)
      then show ?thesis by simp
    next
      case True
      with assms dv None obtain pv where pv: "paths ?s v = Some pv"
        by (cases "paths ?s v") (simp_all add: relax_edge_def Let_def)
      with assms dv None True show ?thesis
        by (simp add: relax_edge_def Let_def)
    qed
  qed
qed

lemma walk_snoc:
  assumes "walk_from_to G r v pv" and "has_edge G v w"
  shows "walk_from_to G r w (pv @ [w])"
proof -
  from assms(1) have p: "is_walk G pv" "hd pv = r" "last pv = v"
    by (simp_all add: walk_from_to_def)
  then have "pv \<noteq> []" by auto
  moreover have "is_walk G (pv @ [w])"
    using p(1) assms(2) p(3) by (intro is_walk_snoc) simp_all
  ultimately show ?thesis using p(2) by (simp add: walk_from_to_def)
qed

lemma relax_edge_walk:
  assumes r: "relax_edge d v e st = Inr st'" and inv: "walk_inv G source target st"
    and sym: "symmetric G" and edge: "has_edge G v (fst e)"
  shows "walk_inv G source target st'"
proof -
  let ?root = "\<lambda>d'. if d' then target else source"
  let ?w = "fst e"
  from relax_edge_cases [OF r] show ?thesis
  proof (rule disjE)
    assume "st' = st"
    with inv show ?thesis by simp
  next
    assume "\<exists>dv pv. dists (side d st) v = Some dv \<and> paths (side d st) v = Some pv \<and>
       meet (fst e)
         ((set_side d
            ((side d st)\<lparr>seen := (seen (side d st))(fst e \<mapsto> dv + snd e),
               fringe := heappush (fringe (side d st)) (dv + snd e, counter st, fst e),
               paths := (paths (side d st))(fst e \<mapsto> pv @ [fst e])\<rparr>) st)
          \<lparr>counter := Suc (counter st)\<rparr>) = Inr st'"
    then obtain dv pv where dv: "dists (side d st) v = Some dv"
      and pv: "paths (side d st) v = Some pv"
      and m: "meet ?w
         ((set_side d
            ((side d st)\<lparr>seen := (seen (side d st))(?w \<mapsto> dv + snd e),
               fringe := heappush (fringe (side d st)) (dv + snd e, counter st, ?w),
               paths := (paths (side d st))(?w \<mapsto> pv @ [?w])\<rparr>) st)
          \<lparr>counter := Suc (counter st)\<rparr>) = Inr st'"
      by blast
    let ?s = "side d st"
    let ?s' = "?s\<lparr>seen := (seen ?s)(?w \<mapsto> dv + snd e),
               fringe := heappush (fringe ?s) (dv + snd e, counter st, ?w),
               paths := (paths ?s)(?w \<mapsto> pv @ [?w])\<rparr>"
    let ?p = "(set_side d ?s' st)\<lparr>counter := Suc (counter st)\<rparr>"
    have si: "side_paths G (?root d) ?s"
      using inv by (rule walk_inv_side)
    have "walk_from_to G (?root d) v pv"
      using si pv by (simp add: side_paths_def)
    then have new: "walk_from_to G (?root d) ?w (pv @ [?w])"
      using edge by (rule walk_snoc)
    have s': "side_paths G (?root d) ?s'"
      unfolding side_paths_def
    proof (intro conjI)
      show "\<forall>e \<in> set (fringe ?s'). seen ?s' (snd (snd e)) \<noteq> None"
        using si by (auto simp: side_paths_def heappush_def)
      show "\<forall>n. dists ?s' n \<noteq> None \<longrightarrow> seen ?s' n \<noteq> None"
        using si by (auto simp: side_paths_def)
      show "\<forall>n p. paths ?s' n = Some p \<longrightarrow> walk_from_to G (?root d) n p"
        using si new by (auto simp: side_paths_def)
    qed
    have sides: "side_paths G (?root d') (side d' ?p)" for d'
    proof (cases "d' = d")
      case True
      then show ?thesis using s' by simp
    next
      case False
      then show ?thesis using walk_inv_side [OF inv, of d'] by simp
    qed
    have seen_other: "seen (side d' ?p) w' = seen (side d' st) w'" if "w' \<noteq> ?w" for d' w'
      using that by (cases "d' = d") simp_all
    have f: "side_paths G source (forward ?p)"
      using sides [of False] by (simp only: side_forward_backward if_False)
    have b: "side_paths G target (backward ?p)"
      using sides [of True] by (simp only: side_forward_backward if_True)
    have fp: "finalpath ?p = [] \<or> walk_from_to G source target (finalpath ?p)"
      using inv by (simp add: walk_inv_def)
    have others: "\<forall>w'. w' \<noteq> ?w \<and> seen (forward ?p) w' \<noteq> None \<and>
        seen (backward ?p) w' \<noteq> None \<longrightarrow> finalpath ?p \<noteq> []"
    proof (intro allI impI)
      fix w'
      assume a: "w' \<noteq> ?w \<and> seen (forward ?p) w' \<noteq> None \<and> seen (backward ?p) w' \<noteq> None"
      then have "seen (forward st) w' \<noteq> None" "seen (backward st) w' \<noteq> None"
        using seen_other [of w' False] seen_other [of w' True]
        by (simp_all add: side_forward_backward)
      then have "finalpath st \<noteq> []" using inv unfolding walk_inv_def by blast
      then show "finalpath ?p \<noteq> []" by simp
    qed
    from m sym f b fp others show ?thesis by (rule meet_walk_inv)
  qed
qed

lemma relax_walk:
  "relax d v es st = Inr st' \<Longrightarrow> walk_inv G source target st \<Longrightarrow> symmetric G \<Longrightarrow>
   \<forall>e \<in> set es. has_edge G v (fst e) \<Longrightarrow> walk_inv G source target st'"
proof (induction es arbitrary: st)
  case Nil
  then show ?case by simp
next
  case (Cons e es)
  from Cons.prems(1) obtain st1 where 1: "relax_edge d v e st = Inr st1"
    and 2: "relax d v es st1 = Inr st'"
    by (cases "relax_edge d v e st") simp_all
  have "walk_inv G source target st1"
    using 1 Cons.prems(2,3,4) by (intro relax_edge_walk [of d v e st st1]) simp_all
  then show ?case
    using 2 Cons.prems(3,4) by (intro Cons.IH) simp_all
qed

lemma bidi_step_walk:
  assumes step: "bidi_step node_lt G st = Inr st'" and inv: "walk_inv G source target st"
    and sym: "symmetric G"
  shows "walk_inv G source target st'"
proof -
  let ?root = "\<lambda>d'. if d' then target else source"
  let ?d = "\<not> dir st"
  let ?s = "side ?d st"
  from step obtain m h where pop: "heappop node_lt (fringe ?s) = Some (m, h)"
    by (cases "heappop node_lt (fringe ?s)") (auto simp: bidi_step_def Let_def)
  then have "h = remove1 m (fringe ?s)" by (simp add: heappop_Some)
  then have hsub: "set h \<subseteq> set (fringe ?s)"
    using set_remove1_subset [of m "fringe ?s"] by simp
  have m: "m \<in> set (fringe ?s)" using pop by (simp add: heappop_Some)
  let ?v = "snd (snd m)"
  let ?s1 = "?s\<lparr>fringe := h\<rparr>"
  let ?st1 = "set_side ?d ?s1 (st\<lparr>dir := ?d\<rparr>)"
  have si: "side_paths G (?root ?d) ?s" using inv by (rule walk_inv_side)
  have v_seen: "seen ?s ?v \<noteq> None" using si m by (auto simp: side_paths_def)
  have change: "walk_inv G source target (set_side ?d s2 (st\<lparr>dir := ?d\<rparr>))"
    if "side_paths G (?root ?d) s2" and "seen s2 = seen ?s" for s2
  proof -
    let ?st2 = "set_side ?d s2 (st\<lparr>dir := ?d\<rparr>)"
    have sides: "side_paths G (?root d') (side d' ?st2)" for d'
    proof (cases "d' = ?d")
      case True
      then show ?thesis using that(1) by simp
    next
      case False
      then show ?thesis using walk_inv_side [OF inv, of d'] by simp
    qed
    have seens: "seen (side d' ?st2) = seen (side d' st)" for d'
      using that(2) by (cases "d' = ?d") simp_all
    have "side_paths G source (forward ?st2)" "side_paths G target (backward ?st2)"
      using sides [of False] sides [of True] by (simp_all only: side_forward_backward if_False if_True)
    moreover have "seen (forward ?st2) = seen (forward st)" "seen (backward ?st2) = seen (backward st)"
      using seens [of False] seens [of True] by (simp_all only: side_forward_backward)
    moreover have "finalpath ?st2 = finalpath st" by simp
    ultimately show ?thesis
      using inv unfolding walk_inv_def by simp
  qed
  have s1: "side_paths G (?root ?d) ?s1"
    using si hsub by (auto simp: side_paths_def)
  show ?thesis
  proof (cases "dists ?s ?v")
    case (Some a)
    with step pop have "st' = ?st1"
      by (simp add: bidi_step_def Let_def)
    then show ?thesis using change [of ?s1] s1 by simp
  next
    case None
    let ?s2 = "?s1\<lparr>dists := (dists ?s)(?v \<mapsto> fst m)\<rparr>"
    let ?st2 = "set_side ?d ((side ?d ?st1)\<lparr>dists := (dists ?s)(?v \<mapsto> fst m)\<rparr>) ?st1"
    have eq2: "?st2 = set_side ?d ?s2 (st\<lparr>dir := ?d\<rparr>)"
      by (simp add: set_side_def side_def)
    have s2: "side_paths G (?root ?d) ?s2"
      using s1 v_seen by (auto simp: side_paths_def)
    have inv2: "walk_inv G source target ?st2"
      unfolding eq2 using s2 by (intro change) simp_all
    from step pop None obtain nbrs where nbrs: "map_of G ?v = Some nbrs"
      and r: "relax ?d ?v nbrs ?st2 = Inr st'"
      by (auto simp: bidi_step_def Let_def split: if_splits option.splits sum.splits)
    have edges: "\<forall>e \<in> set nbrs. has_edge G ?v (fst e)"
    proof
      fix e
      assume "e \<in> set nbrs"
      then have "(fst e, snd e) \<in> set nbrs" by simp
      with nbrs have "(?v, fst e) \<in> edge_rel G" by (rule neighbour_edge)
      then show "has_edge G ?v (fst e)" by (simp add: edge_rel_def)
    qed
    from r inv2 sym edges show ?thesis by (rule relax_walk)
  qed
qed

lemma bidi_step_result:
  assumes step: "bidi_step node_lt G st = Inl (Inr (fd, p))"
    and inv: "walk_inv G source target st"
  shows "walk_from_to G source target p"
proof -
  let ?root = "\<lambda>d'. if d' then target else source"
  let ?d = "\<not> dir st"
  let ?s = "side ?d st"
  let ?o = "side (\<not> ?d) st"
  from step obtain m h where pop: "heappop node_lt (fringe ?s) = Some (m, h)"
    by (cases "heappop node_lt (fringe ?s)") (auto simp: bidi_step_def Let_def)
  have m: "m \<in> set (fringe ?s)" using pop by (simp add: heappop_Some)
  let ?v = "snd (snd m)"
  have si: "side_paths G (?root ?d) ?s" using inv by (rule walk_inv_side)
  have oi: "side_paths G (?root (\<not> ?d)) ?o" using inv by (rule walk_inv_side)
  have v_seen: "seen ?s ?v \<noteq> None" using si m by (auto simp: side_paths_def)
  from step pop have ret: "dists ?o ?v \<noteq> None \<and> p = finalpath st"
    by (auto simp: bidi_step_def Let_def split: if_splits option.splits sum.splits)
  then have "seen ?o ?v \<noteq> None" using oi by (simp add: side_paths_def)
  with v_seen have "seen (forward st) ?v \<noteq> None \<and> seen (backward st) ?v \<noteq> None"
    by (cases "dir st") (simp_all add: side_def)
  then have "finalpath st \<noteq> []" using inv unfolding walk_inv_def by blast
  then show ?thesis using inv ret by (simp add: walk_inv_def)
qed

lemma bidi_loop_walk:
  "walk_inv G source target st \<Longrightarrow> symmetric G \<Longrightarrow> bidi_loop node_lt G st = Inr (fd, p) \<Longrightarrow>
   walk_from_to G source target p"
proof (induction node_lt G st rule: bidi_loop.induct)
  case (1 node_lt G st)
  show ?case
  proof (cases "fringe (forward st) \<noteq> [] \<and> fringe (backward st) \<noteq> []")
    case False
    then show ?thesis
      using "1.prems"(3) by (auto simp: bidi_loop.simps [of node_lt G st])
  next
    case True
    then have l: "bidi_loop node_lt G st =
        (case bidi_step node_lt G st of Inl r \<Rightarrow> r | Inr st' \<Rightarrow> bidi_loop node_lt G st')"
      by (simp add: bidi_loop.simps [of node_lt G st])
    show ?thesis
    proof (cases "bidi_step node_lt G st")
      case (Inl res)
      with l "1.prems"(3) have "bidi_step node_lt G st = Inl (Inr (fd, p))" by simp
      then show ?thesis using "1.prems"(1) by (rule bidi_step_result)
    next
      case (Inr st1)
      then have "walk_inv G source target st1"
        using "1.prems"(1,2) by (rule bidi_step_walk)
      moreover have "bidi_loop node_lt G st1 = Inr (fd, p)"
        using l Inr "1.prems"(3) by simp
      ultimately show ?thesis
        using True Inr "1.prems"(2) by (intro "1.IH") simp_all
    qed
  qed
qed

lemma walk_inv_bidi_init:
  "source \<noteq> target \<Longrightarrow> walk_inv G source target (bidi_init source target)"
  by (auto simp: walk_inv_def side_paths_def bidi_init_def heappush_def walk_from_to_def
      split: if_splits)

lemma find_shortest_path_walk:
  assumes "symmetric G" and "find_shortest_path node_lt G start end = Inr (p, Finite w)"
  shows "walk_from_to G start end p"
proof -
  from assms(2) obtain fd where b: "bidirectional_dijkstra node_lt G start end = Inr (fd, p)"
    by (auto simp: find_shortest_path_def shortest_path_def split: sum.splits error.splits)
  show ?thesis
  proof (cases "start = end")
    case True
    with b have "p = [start]"
      by (auto simp: bidirectional_dijkstra_def split: if_splits)
    with True show ?thesis by (simp add: walk_from_to_def)
  next
    case False
    with b have "bidi_loop node_lt G (bidi_init start end) = Inr (fd, p)"
      by (auto simp: bidirectional_dijkstra_def split: if_splits)
    with walk_inv_bidi_init [OF False] assms(1) show ?thesis
      by (rule bidi_loop_walk)
  qed
qed

section \<open>The weights of a built graph\<close>

text \<open>
  Every weight of a built graph is a value \<^verbatim>\<open>haversine\<close> returned, so a built graph
  satisfies \<open>weights_ok\<close> as soon as no value of \<^verbatim>\<open>haversine\<close> is negative; with
  \<open>build_neighbours_are_nodes\<close>, the conditions on the graph under which the search
  between two components is analysed hold for the graphs of this program.
\<close>

lemma set_dict_set: "set (dict_set k v d) \<subseteq> insert (k, v) (set d)"
  by (induction d) auto

lemma all_weights_adj_set: "all_weights (adj_set u v w G) \<subseteq> insert w (all_weights G)"
proof (induction G)
  case Nil
  then show ?case by (simp add: all_weights_def)
next
  case (Cons p G)
  show ?case
  proof (cases "fst p = u")
    case True
    have "set (dict_set v w (snd p)) \<subseteq> insert (v, w) (set (snd p))"
      by (rule set_dict_set)
    moreover have "(fst p, snd p) \<in> set (p # G)" by simp
    ultimately show ?thesis
      using True unfolding all_weights_def by (auto simp del: prod.collapse)
  next
    case False
    then show ?thesis
      using Cons unfolding all_weights_def by auto blast+
  qed
qed

lemma all_weights_add_node: "all_weights (add_node n G) = all_weights G"
  by (auto simp: add_node_def all_weights_def)

lemma all_weights_add_edge: "all_weights (add_edge u v w G) \<subseteq> insert w (all_weights G)"
  unfolding add_edge_def
  using all_weights_adj_set [of v u w "adj_set u v w (add_node v (add_node u G))"]
    all_weights_adj_set [of u v w "add_node v (add_node u G)"]
  by (auto simp: all_weights_add_node)

lemma add_connections_weights:
  "add_connections haversine coordinates connections G = Inr G' \<Longrightarrow>
   all_weights G' \<subseteq> all_weights G \<union> {c. \<exists>c1 c2. haversine c1 c2 = Inr c}"
proof (induction haversine coordinates connections G rule: add_connections.induct)
  case (1 haversine coordinates G)
  then show ?case by auto
next
  case (2 haversine coordinates from_city to_city rest G)
  show ?case
  proof (cases "map_of coordinates from_city")
    case None
    with 2 show ?thesis by simp
  next
    case c1: (Some coord1)
    show ?thesis
    proof (cases "map_of coordinates to_city")
      case None
      with 2 c1 show ?thesis by simp
    next
      case c2: (Some coord2)
      from "2.prems" c1 c2 obtain distance where
        d: "calculate_haversine_distance haversine coord1 coord2 = Inr distance"
        and r: "add_connections haversine coordinates rest
                  (add_edge from_city to_city distance G) = Inr G'"
        by (auto split: sum.splits)
      have "all_weights G' \<subseteq> all_weights (add_edge from_city to_city distance G) \<union>
          {c. \<exists>c1 c2. haversine c1 c2 = Inr c}"
        using c1 c2 d r by (rule "2.IH"(3))
      moreover have "haversine coord1 coord2 = Inr distance"
        using d by (simp add: calculate_haversine_distance_def)
      ultimately show ?thesis
        using all_weights_add_edge [of from_city to_city distance G] by blast
    qed
  qed
qed

lemma build_weights_ok:
  assumes "build_flight_graph haversine coordinates connections = Inr G"
    and "\<forall>c1 c2 c. haversine c1 c2 = Inr c \<longrightarrow> (\<forall>a. a \<le> a + c)"
  shows "weights_ok G"
proof -
  have "all_weights (fold add_node ns ([] :: 'a graph)) = {}" for ns
  proof -
    have "all_weights (fold add_node ns G0) = all_weights G0" for G0 :: "'a graph"
      by (induction ns arbitrary: G0) (simp_all add: all_weights_add_node)
    then show ?thesis by (simp add: all_weights_def)
  qed
  then have sub: "all_weights G \<subseteq> {c. \<exists>c1 c2. haversine c1 c2 = Inr c}"
    using add_connections_weights [OF assms(1) [unfolded build_flight_graph_def]] by simp
  show ?thesis
    unfolding weights_ok_def
  proof (intro allI impI)
    fix u nbrs v c a
    assume "map_of G u = Some nbrs \<and> (v, c) \<in> set nbrs"
    then have "(u, nbrs) \<in> set G" "(v, c) \<in> set nbrs"
      by (auto dest: map_of_SomeD)
    then have "c \<in> all_weights G" unfolding all_weights_def by blast
    with sub obtain c1 c2 where "haversine c1 c2 = Inr c" by blast
    with assms(2) show "a \<le> a + c" by blast
  qed
qed

end
